theory Spec2Isabelle
  imports Complex_Main "HOL-Library.Multiset" "HOL-Library.AList"
begin

section \<open>The external quota authority\<close>

text \<open>
  Both parent-side components talk to the authority through
  \<^verbatim>\<open>allow2Client.checkActivity(args)\<close>. The argument object is a record; a field
  the caller leaves out is \<open>None\<close>. The answer is outside this repository: an awaited
  call either throws or returns a value, and the value may be \<^verbatim>\<open>null\<close>.
\<close>

record activity_call =
  child_id :: string
  activity_type :: string
  duration_seconds :: "int option"
  log_usage :: bool
  check_only :: "bool option"

record allowance =
  allowed :: bool
  is_banned :: bool
  is_activity_blocked :: bool
  remaining_seconds :: int
  ban_reason :: "string option"

datatype 'a reply = Throws | Returns 'a

type_synonym authority = "activity_call \<Rightarrow> allowance option reply"

section \<open>QuotaEnforcer (src/parent/QuotaEnforcer.js)\<close>

datatype urgency = critical | high | normal

text \<open>
  \<^verbatim>\<open>emit('block-browsers', {agentId, childId, reason})\<close> and
  \<^verbatim>\<open>emit('show-warning', {agentId, childId, remaining, type, urgency})\<close>.
  \<open>remaining\<close> is \<^verbatim>\<open>remainingSeconds / 60\<close>, a fraction of a minute.
\<close>

datatype enforcer_event =
    BlockBrowsers string string string
  | ShowWarning string string rat string urgency

record cache_entry =
  ce_allowance :: "allowance option"
  ce_timestamp :: int

text \<open>
  The fields of the class that \<^verbatim>\<open>checkQuota\<close> reads or writes.
  \<open>has_client\<close> is the truthiness of \<^verbatim>\<open>this.allow2Client\<close>; \<open>warningMinutes\<close> is
  \<^verbatim>\<open>this.state.settings?.warningMinutes\<close>; \<open>warningStates\<close> maps a child to its
  flag object (keys \<^verbatim>\<open>warned15\<close>, ...); \<open>emitted\<close> is the sequence of events handed
  to the listeners and \<open>calls\<close> the sequence of requests sent to the authority.
\<close>

record enforcer =
  has_client :: bool
  warningMinutes :: "int list option"
  warningStates :: "string \<rightharpoonup> (string \<rightharpoonup> bool)"
  quotaCache :: "string \<rightharpoonup> cache_entry"
  emitted :: "enforcer_event list"
  calls :: "activity_call list"

definition cacheTTL :: int where
  "cacheTTL = 5000"

definition newEnforcer :: "bool \<Rightarrow> int list option \<Rightarrow> enforcer" where
  "newEnforcer client wm =
     \<lparr>has_client = client, warningMinutes = wm, warningStates = Map.empty,
      quotaCache = Map.empty, emitted = [], calls = []\<rparr>"

definition emit :: "enforcer_event \<Rightarrow> enforcer \<Rightarrow> enforcer" where
  "emit e s = s\<lparr>emitted := emitted s @ [e]\<rparr>"

subsection \<open>Number to string, for the flag keys\<close>

definition digitChars :: string where
  "digitChars = ''0123456789''"

fun digits :: "nat \<Rightarrow> string" where
  "digits n = (if n < 10 then [digitChars ! n]
               else digits (n div 10) @ [digitChars ! (n mod 10)])"

declare digits.simps [simp del]

definition numberToString :: "int \<Rightarrow> string" where
  "numberToString i = (if i < 0 then CHR ''-'' # digits (nat (- i)) else digits (nat i))"

text \<open>\<^verbatim>\<open>const warningKey = `warned${threshold}`\<close>\<close>

definition warningKey :: "int \<Rightarrow> string" where
  "warningKey threshold = ''warned'' @ numberToString threshold"

subsection \<open>fetchAllowance\<close>

definition cacheKeyOf :: "string \<Rightarrow> string \<Rightarrow> string" where
  "cacheKeyOf childId activityType = childId @ '':'' @ activityType"

text \<open>The request \<^verbatim>\<open>fetchAllowance\<close> sends (lines 174-179).\<close>

definition allowanceCall :: "string \<Rightarrow> string \<Rightarrow> activity_call" where
  "allowanceCall childId activityType =
     \<lparr>child_id = childId, activity_type = activityType, duration_seconds = None,
      log_usage = False, check_only = Some True\<rparr>"

text \<open>\<^verbatim>\<open>cached && (Date.now() - cached.timestamp) < this.cacheTTL\<close>\<close>

definition cacheFresh :: "enforcer \<Rightarrow> string \<Rightarrow> string \<Rightarrow> int \<Rightarrow> bool" where
  "cacheFresh s childId activityType now =
     (case quotaCache s (cacheKeyOf childId activityType) of
        None \<Rightarrow> False
      | Some c \<Rightarrow> now - ce_timestamp c < cacheTTL)"

text \<open>
  \<open>now\<close> is the reading of \<^verbatim>\<open>Date.now()\<close>. A thrown call is caught and gives
  \<^verbatim>\<open>null\<close> without touching the cache; a returned value is cached as it is, also
  when it is \<^verbatim>\<open>null\<close>.
\<close>

definition fetchAllowance ::
  "string \<Rightarrow> string \<Rightarrow> int \<Rightarrow> authority \<Rightarrow> enforcer \<Rightarrow> allowance option \<times> enforcer" where
  "fetchAllowance childId activityType now auth s =
     (let cacheKey = cacheKeyOf childId activityType in
      case quotaCache s cacheKey of
        Some c \<Rightarrow>
          if now - ce_timestamp c < cacheTTL then (ce_allowance c, s)
          else
            (let s1 = s\<lparr>calls := calls s @ [allowanceCall childId activityType]\<rparr> in
             case auth (allowanceCall childId activityType) of
               Throws \<Rightarrow> (None, s1)
             | Returns a \<Rightarrow>
                 (a, s1\<lparr>quotaCache := (quotaCache s1)
                        (cacheKey \<mapsto> \<lparr>ce_allowance = a, ce_timestamp = now\<rparr>)\<rparr>))
      | None \<Rightarrow>
          (let s1 = s\<lparr>calls := calls s @ [allowanceCall childId activityType]\<rparr> in
           case auth (allowanceCall childId activityType) of
             Throws \<Rightarrow> (None, s1)
           | Returns a \<Rightarrow>
               (a, s1\<lparr>quotaCache := (quotaCache s1)
                      (cacheKey \<mapsto> \<lparr>ce_allowance = a, ce_timestamp = now\<rparr>)\<rparr>)))"

subsection \<open>Warning state\<close>

text \<open>
  \<^verbatim>\<open>getWarningState\<close> creates the empty flag object on first use and returns the
  stored object.
\<close>

definition getWarningState :: "string \<Rightarrow> enforcer \<Rightarrow> (string \<rightharpoonup> bool) \<times> enforcer" where
  "getWarningState childId s =
     (case warningStates s childId of
        None \<Rightarrow> (Map.empty, s\<lparr>warningStates := (warningStates s)(childId \<mapsto> Map.empty)\<rparr>)
      | Some ws \<Rightarrow> (ws, s))"

definition resetWarningState :: "string \<Rightarrow> enforcer \<Rightarrow> enforcer" where
  "resetWarningState childId s = s\<lparr>warningStates := (warningStates s)(childId := None)\<rparr>"

definition clearCache :: "enforcer \<Rightarrow> enforcer" where
  "clearCache s = s\<lparr>quotaCache := Map.empty\<rparr>"

text \<open>\<^verbatim>\<open>cleanup\<close>: the timer is outside the model; both maps are cleared.\<close>

definition enforcerCleanup :: "enforcer \<Rightarrow> enforcer" where
  "enforcerCleanup s = s\<lparr>quotaCache := Map.empty, warningStates := Map.empty\<rparr>"

text \<open>\<^verbatim>\<open>!warningState[warningKey]\<close>: the flag is unset when absent or false.\<close>

definition flagged :: "(string \<rightharpoonup> bool) \<Rightarrow> string \<Rightarrow> bool" where
  "flagged ws k = (ws k = Some True)"

text \<open>\<^verbatim>\<open>threshold <= 1 ? 'critical' : threshold <= 5 ? 'high' : 'normal'\<close>\<close>

definition urgencyOf :: "int \<Rightarrow> urgency" where
  "urgencyOf threshold =
     (if threshold \<le> 1 then critical else if threshold \<le> 5 then high else normal)"

text \<open>\<^verbatim>\<open>warningMinutes.sort((a, b) => b - a)\<close>\<close>

definition sortDescending :: "int list \<Rightarrow> int list" where
  "sortDescending xs = rev (sort xs)"

subsection \<open>checkQuota\<close>

text \<open>
  The \<^verbatim>\<open>for (const threshold of ...)\<close> loop of lines 134-157 over the thresholds
  still to visit. \<open>ws\<close> is the flag object fetched before the loop; the loop ends at
  the first threshold that fires (\<^verbatim>\<open>break\<close>).
\<close>

fun warningLoop ::
  "string \<Rightarrow> string \<Rightarrow> string \<Rightarrow> rat \<Rightarrow> (string \<rightharpoonup> bool) \<Rightarrow> int list \<Rightarrow> enforcer \<Rightarrow> enforcer" where
  "warningLoop agentId childId activityType remainingMinutes ws [] s = s"
| "warningLoop agentId childId activityType remainingMinutes ws (threshold # rest) s =
     (if remainingMinutes \<le> of_int threshold \<and> \<not> flagged ws (warningKey threshold) then
        (let s1 = emit (ShowWarning agentId childId remainingMinutes activityType
                          (urgencyOf threshold)) s
         in s1\<lparr>warningStates :=
                 (warningStates s1)(childId \<mapsto> ws(warningKey threshold \<mapsto> True))\<rparr>)
      else warningLoop agentId childId activityType remainingMinutes ws rest s)"

text \<open>
  Lines 130-157. The default list is a fresh literal; a configured list is sorted in
  place, so the settings keep the sorted order.
\<close>

definition checkWarnings ::
  "string \<Rightarrow> string \<Rightarrow> string \<Rightarrow> int \<Rightarrow> enforcer \<Rightarrow> enforcer" where
  "checkWarnings agentId childId activityType remainingSeconds s =
     (let sorted = sortDescending (case warningMinutes s of None \<Rightarrow> [15, 5, 1] | Some w \<Rightarrow> w);
          s1 = s\<lparr>warningMinutes := map_option (\<lambda>_. sorted) (warningMinutes s)\<rparr>;
          (ws, s2) = getWarningState childId s1
      in warningLoop agentId childId activityType (of_int remainingSeconds / 60) ws sorted s2)"

text \<open>\<^verbatim>\<open>allowance.ban_reason || 'Activity is blocked'\<close>: an empty reason is falsy.\<close>

definition blockReason :: "allowance \<Rightarrow> string" where
  "blockReason a =
     (case ban_reason a of
        None \<Rightarrow> ''Activity is blocked''
      | Some r \<Rightarrow> if r = [] then ''Activity is blocked'' else r)"

text \<open>Lines 87-157: the decision taken once an allowance is in hand.\<close>

definition decide ::
  "string \<Rightarrow> string \<Rightarrow> string \<Rightarrow> allowance \<Rightarrow> enforcer \<Rightarrow> enforcer" where
  "decide agentId childId activityType a s =
     (if is_banned a \<or> is_activity_blocked a then
        emit (BlockBrowsers agentId childId (blockReason a)) s
      else if \<not> allowed a then
        emit (BlockBrowsers agentId childId ''Internet time not allowed'') s
      else if remaining_seconds a = - 1 then s
      else if remaining_seconds a \<le> 0 then
        emit (BlockBrowsers agentId childId ''Daily internet time exhausted'') s
      else checkWarnings agentId childId activityType (remaining_seconds a) s)"

definition checkQuota ::
  "string \<Rightarrow> string \<Rightarrow> string \<Rightarrow> int \<Rightarrow> authority \<Rightarrow> enforcer \<Rightarrow> enforcer" where
  "checkQuota agentId childId activityType now auth s =
     (if \<not> has_client s then s
      else
        (case fetchAllowance childId activityType now auth s of
           (None, s1) \<Rightarrow> s1
         | (Some a, s1) \<Rightarrow> decide agentId childId activityType a s1))"

text \<open>The flag of a threshold, as stored for a child.\<close>

definition flagSet :: "enforcer \<Rightarrow> string \<Rightarrow> int \<Rightarrow> bool" where
  "flagSet s childId threshold =
     (case warningStates s childId of
        None \<Rightarrow> False
      | Some ws \<Rightarrow> flagged ws (warningKey threshold))"

text \<open>Authorities and states used at concrete inputs.\<close>

definition allowanceWith :: "bool \<Rightarrow> int \<Rightarrow> allowance" where
  "allowanceWith ok secs =
     \<lparr>allowed = ok, is_banned = False, is_activity_blocked = False,
      remaining_seconds = secs, ban_reason = None\<rparr>"

definition steadyAuthority :: "int \<Rightarrow> authority" where
  "steadyAuthority secs = (\<lambda>c. Returns (Some (allowanceWith True secs)))"

definition failingAuthority :: authority where
  "failingAuthority = (\<lambda>c. Throws)"

definition enforcer0 :: enforcer where
  "enforcer0 = newEnforcer True (Some [5, 15, 1])"

text \<open>
  The threshold list a call scans (\<^verbatim>\<open>this.state.settings?.warningMinutes || [15, 5, 1]\<close>)
  and the flag object of a child as the call sees it.
\<close>

definition configured :: "enforcer \<Rightarrow> int list" where
  "configured s = (case warningMinutes s of None \<Rightarrow> [15, 5, 1] | Some w \<Rightarrow> w)"

definition flagsOf :: "enforcer \<Rightarrow> string \<Rightarrow> (string \<rightharpoonup> bool)" where
  "flagsOf s c = (case warningStates s c of None \<Rightarrow> Map.empty | Some w \<Rightarrow> w)"

text \<open>The enforcer after one check that found ten minutes left.\<close>

definition enforcerWarned :: enforcer where
  "enforcerWarned =
     checkQuota ''agent1'' ''child1'' ''internet'' 0 (steadyAuthority 600) enforcer0"

section \<open>BrowserTimeTracker (src/parent/BrowserTimeTracker.js)\<close>

record session =
  childId :: string
  startTime :: int
  lastUpdate :: int
  browsers :: "string list"
  accumulatedSeconds :: int
  logged :: bool

record child_usage =
  usageToday :: int
  lastReset :: int

text \<open>
  The events of the tracker: \<^verbatim>\<open>session-started {agentId, childId, browsers, timestamp}\<close>,
  \<^verbatim>\<open>session-ended {agentId, childId, duration, timestamp}\<close>,
  \<^verbatim>\<open>usage-recorded {childId, duration, totalToday}\<close> and
  \<^verbatim>\<open>usage-logged {childId, duration, remaining, allowed}\<close>, where the last two
  fields are \<^verbatim>\<open>result?.remaining_seconds\<close> and \<^verbatim>\<open>result?.allowed\<close>.
\<close>

datatype tracker_event =
    SessionStarted string string "string list" int
  | SessionEnded string string int int
  | UsageRecorded string int int
  | UsageLogged string int "int option" "bool option"

text \<open>
  \<^verbatim>\<open>activeSessions\<close> and \<^verbatim>\<open>logIntervals\<close> are JavaScript Maps: association lists
  in insertion order, where \<^verbatim>\<open>set\<close> overwrites an existing key in place and appends
  a new one (\<open>AList.update\<close>), and \<^verbatim>\<open>delete\<close> removes the key (\<open>AList.delete\<close>).
  A logging timer is represented by the \<^verbatim>\<open>childId\<close> its callback closed over.
  Times are milliseconds, \<^verbatim>\<open>Math.floor(x / 1000)\<close> is \<open>x div 1000\<close>.
\<close>

record tracker =
  t_has_client :: bool
  activeSessions :: "(string \<times> session) list"
  logIntervals :: "(string \<times> string) list"
  resetCheckInterval :: bool
  children :: "string \<rightharpoonup> child_usage"
  t_emitted :: "tracker_event list"
  t_calls :: "activity_call list"

definition newTracker :: "bool \<Rightarrow> (string \<rightharpoonup> child_usage) \<Rightarrow> tracker" where
  "newTracker client ch =
     \<lparr>t_has_client = client, activeSessions = [], logIntervals = [],
      resetCheckInterval = True, children = ch, t_emitted = [], t_calls = []\<rparr>"

definition emitT :: "tracker_event \<Rightarrow> tracker \<Rightarrow> tracker" where
  "emitT e t = t\<lparr>t_emitted := t_emitted t @ [e]\<rparr>"

text \<open>\<^verbatim>\<open>updateChildUsage\<close> (lines 163-178).\<close>

definition updateChildUsage :: "string \<Rightarrow> int \<Rightarrow> int \<Rightarrow> tracker \<Rightarrow> tracker" where
  "updateChildUsage cid seconds now t =
     (let cur = (case children t cid of
                   None \<Rightarrow> \<lparr>usageToday = 0, lastReset = now\<rparr>
                 | Some d \<Rightarrow> d);
          new = cur\<lparr>usageToday := usageToday cur + seconds\<rparr>
      in emitT (UsageRecorded cid seconds (usageToday new))
           (t\<lparr>children := (children t)(cid \<mapsto> new)\<rparr>))"

text \<open>
  The request \<^verbatim>\<open>logUsageToAllow2\<close> sends (lines 191-200); the constant
  \<^verbatim>\<open>metadata\<close> object is left out.
\<close>

definition usageCall :: "string \<Rightarrow> int \<Rightarrow> activity_call" where
  "usageCall cid durationSeconds =
     \<lparr>child_id = cid, activity_type = ''internet'', duration_seconds = Some durationSeconds,
      log_usage = True, check_only = None\<rparr>"

text \<open>
  \<^verbatim>\<open>logUsageToAllow2\<close>: without a client nothing is sent; a thrown call is caught; a
  returned one is announced by \<^verbatim>\<open>usage-logged\<close>. Its callers ignore the value it
  returns, so only the state is kept.
\<close>

definition logUsageToAllow2 :: "string \<Rightarrow> int \<Rightarrow> authority \<Rightarrow> tracker \<Rightarrow> tracker" where
  "logUsageToAllow2 cid durationSeconds auth t =
     (if \<not> t_has_client t then t
      else
        (let t1 = t\<lparr>t_calls := t_calls t @ [usageCall cid durationSeconds]\<rparr> in
         case auth (usageCall cid durationSeconds) of
           Throws \<Rightarrow> t1
         | Returns r \<Rightarrow>
             emitT (UsageLogged cid durationSeconds
                      (map_option remaining_seconds r) (map_option allowed r)) t1))"

definition stopLoggingInterval :: "string \<Rightarrow> tracker \<Rightarrow> tracker" where
  "stopLoggingInterval agentId t = t\<lparr>logIntervals := AList.delete agentId (logIntervals t)\<rparr>"

definition startLoggingInterval :: "string \<Rightarrow> string \<Rightarrow> tracker \<Rightarrow> tracker" where
  "startLoggingInterval agentId cid t =
     (let t1 = stopLoggingInterval agentId t
      in t1\<lparr>logIntervals := AList.update agentId cid (logIntervals t1)\<rparr>)"

text \<open>
  One firing of the timer of \<open>agentId\<close>, the callback of lines 226-238. Without a
  timer for the agent nothing runs.
\<close>

definition loggingTick :: "string \<Rightarrow> authority \<Rightarrow> tracker \<Rightarrow> tracker" where
  "loggingTick agentId auth t =
     (case map_of (logIntervals t) agentId of
        None \<Rightarrow> t
      | Some cid \<Rightarrow>
          (case map_of (activeSessions t) agentId of
             None \<Rightarrow> t
           | Some sess \<Rightarrow>
               if accumulatedSeconds sess = 0 then t
               else
                 (let secondsToLog = accumulatedSeconds sess;
                      t1 = t\<lparr>activeSessions :=
                             AList.update agentId (sess\<lparr>accumulatedSeconds := 0, logged := True\<rparr>)
                               (activeSessions t)\<rparr>
                  in logUsageToAllow2 cid secondsToLog auth t1)))"

text \<open>\<^verbatim>\<open>recordActivity\<close> (lines 68-107).\<close>

definition recordActivity :: "string \<Rightarrow> string \<Rightarrow> string list \<Rightarrow> int \<Rightarrow> tracker \<Rightarrow> tracker" where
  "recordActivity agentId cid brs now t =
     (case map_of (activeSessions t) agentId of
        Some existing \<Rightarrow>
          (let elapsed = now - lastUpdate existing;
               updated = existing\<lparr>lastUpdate := now, browsers := brs,
                           accumulatedSeconds := accumulatedSeconds existing + elapsed div 1000\<rparr>;
               t1 = t\<lparr>activeSessions := AList.update agentId updated (activeSessions t)\<rparr>
           in updateChildUsage cid (elapsed div 1000) now t1)
      | None \<Rightarrow>
          (let sess = \<lparr>childId = cid, startTime = now, lastUpdate = now, browsers = brs,
                       accumulatedSeconds = 0, logged = False\<rparr>;
               t1 = t\<lparr>activeSessions := AList.update agentId sess (activeSessions t)\<rparr>;
               t2 = startLoggingInterval agentId cid t1
           in emitT (SessionStarted agentId cid brs now) t2))"

text \<open>
  \<^verbatim>\<open>endSession\<close> (lines 115-148). The method awaits the usage call before its
  remaining steps; the definition is the run of the method with nothing else scheduled
  during that wait.
\<close>

definition endSession :: "string \<Rightarrow> string \<Rightarrow> int \<Rightarrow> authority \<Rightarrow> tracker \<Rightarrow> tracker" where
  "endSession agentId cid now auth t =
     (case map_of (activeSessions t) agentId of
        None \<Rightarrow> t
      | Some sess \<Rightarrow>
          (let elapsed = now - lastUpdate sess;
               totalSeconds = accumulatedSeconds sess + elapsed div 1000;
               sessionDuration = (now - startTime sess) div 1000;
               t1 = (if totalSeconds > 0 \<and> t_has_client t
                     then logUsageToAllow2 cid totalSeconds auth t else t);
               t2 = updateChildUsage cid (elapsed div 1000) now t1;
               t3 = stopLoggingInterval agentId t2;
               t4 = t3\<lparr>activeSessions := AList.delete agentId (activeSessions t3)\<rparr>
           in emitT (SessionEnded agentId cid sessionDuration now) t4))"

definition endAllSessions :: "string \<Rightarrow> int \<Rightarrow> authority \<Rightarrow> tracker \<Rightarrow> tracker" where
  "endAllSessions agentId now auth t =
     (case map_of (activeSessions t) agentId of
        None \<Rightarrow> t
      | Some sess \<Rightarrow> endSession agentId (childId sess) now auth t)"

text \<open>\<^verbatim>\<open>getChildSessions\<close> (lines 257-270): one view per matching map entry.\<close>

record session_view =
  v_agentId :: string
  v_startTime :: int
  v_duration :: int
  v_browsers :: "string list"

fun getChildSessions :: "string \<Rightarrow> int \<Rightarrow> (string \<times> session) list \<Rightarrow> session_view list" where
  "getChildSessions cid now [] = []"
| "getChildSessions cid now ((agentId, sess) # rest) =
     (if childId sess = cid
      then \<lparr>v_agentId = agentId, v_startTime = startTime sess,
            v_duration = (now - startTime sess) div 1000, v_browsers = browsers sess\<rparr>
           # getChildSessions cid now rest
      else getChildSessions cid now rest)"

text \<open>\<^verbatim>\<open>checkAllowance\<close> (lines 332-350).\<close>

definition checkAllowance :: "string \<Rightarrow> authority \<Rightarrow> tracker \<Rightarrow> allowance option \<times> tracker" where
  "checkAllowance cid auth t =
     (if \<not> t_has_client t then (None, t)
      else
        (let call = \<lparr>child_id = cid, activity_type = ''internet'', duration_seconds = None,
                     log_usage = False, check_only = Some True\<rparr>;
             t1 = t\<lparr>t_calls := t_calls t @ [call]\<rparr>
         in case auth call of
              Throws \<Rightarrow> (None, t1)
            | Returns r \<Rightarrow> (r, t1)))"

text \<open>
  \<^verbatim>\<open>cleanup\<close> (lines 355-369): every logging timer is stopped, the daily-reset timer
  is cleared, and the session map is cleared.
\<close>

fun stopAll :: "string list \<Rightarrow> tracker \<Rightarrow> tracker" where
  "stopAll [] t = t"
| "stopAll (agentId # rest) t = stopAll rest (stopLoggingInterval agentId t)"

definition trackerCleanup :: "tracker \<Rightarrow> tracker" where
  "trackerCleanup t =
     (let t1 = stopAll (map fst (logIntervals t)) t
      in t1\<lparr>resetCheckInterval := False, activeSessions := []\<rparr>)"

text \<open>The states the tracker can be in: built by the constructor, changed by its methods and timers.\<close>

inductive reachableT :: "tracker \<Rightarrow> bool" where
  rt_new: "reachableT (newTracker client ch)"
| rt_record: "reachableT t \<Longrightarrow> reachableT (recordActivity agentId cid brs now t)"
| rt_end: "reachableT t \<Longrightarrow> reachableT (endSession agentId cid now auth t)"
| rt_end_all: "reachableT t \<Longrightarrow> reachableT (endAllSessions agentId now auth t)"
| rt_tick: "reachableT t \<Longrightarrow> reachableT (loggingTick agentId auth t)"
| rt_check: "reachableT t \<Longrightarrow> reachableT (snd (checkAllowance cid auth t))"
| rt_cleanup: "reachableT t \<Longrightarrow> reachableT (trackerCleanup t)"

text \<open>The agents with an open session for a child.\<close>

definition openAgents :: "tracker \<Rightarrow> string \<Rightarrow> string set" where
  "openAgents t cid = {a. \<exists>sess. map_of (activeSessions t) a = Some sess \<and> childId sess = cid}"

text \<open>A tracker with one open session that has accumulated two minutes.\<close>

definition tracker2 :: tracker where
  "tracker2 =
     recordActivity ''agent1'' ''child1'' [''chrome''] 120000
       (recordActivity ''agent1'' ''child1'' [''chrome''] 0 (newTracker True Map.empty))"

text \<open>The same history on a tracker that was built without a client.\<close>

definition trackerNoClient :: tracker where
  "trackerNoClient =
     recordActivity ''agent1'' ''child1'' [''chrome''] 120000
       (recordActivity ''agent1'' ''child1'' [''chrome''] 0 (newTracker False Map.empty))"

definition okAuthority :: authority where
  "okAuthority = (\<lambda>c. Returns (Some (allowanceWith True 600)))"

section \<open>ProcessLevelDetector: start and stop of monitoring\<close>

text \<open>
  An entry of \<^verbatim>\<open>activeBrowsers\<close> (pid to info), as \<^verbatim>\<open>scanBrowsers\<close> builds it:
  the fields of \<^verbatim>\<open>identifyBrowser\<close> plus \<^verbatim>\<open>pid\<close> and \<^verbatim>\<open>startTime\<close>.
\<close>

record browser_info =
  b_name :: string
  b_displayName :: string
  b_processName :: string
  b_executable :: string
  b_icon :: string
  b_pid :: int
  b_startTime :: int

text \<open>\<^verbatim>\<open>emit('browser-stopped', {...info, duration})\<close>\<close>

datatype detector_event = BrowserStopped browser_info int

record detector =
  isRunning :: bool
  scanInterval :: bool
  activeBrowsers :: "(int \<times> browser_info) list"
  d_emitted :: "detector_event list"

text \<open>The loop of lines 108-114 over the entries of the map; \<open>now\<close> is \<^verbatim>\<open>Date.now()\<close>.\<close>

fun emitStopped :: "int \<Rightarrow> (int \<times> browser_info) list \<Rightarrow> detector \<Rightarrow> detector" where
  "emitStopped now [] d = d"
| "emitStopped now ((pid, info) # rest) d =
     emitStopped now rest
       (d\<lparr>d_emitted := d_emitted d @ [BrowserStopped info (now - b_startTime info)]\<rparr>)"

text \<open>\<^verbatim>\<open>stop\<close> (lines 94-117).\<close>

definition detectorStop :: "int \<Rightarrow> detector \<Rightarrow> detector" where
  "detectorStop now d =
     (if \<not> isRunning d then d
      else
        (let d1 = d\<lparr>isRunning := False, scanInterval := False\<rparr>;
             d2 = emitStopped now (activeBrowsers d1) d1
         in d2\<lparr>activeBrowsers := []\<rparr>))"

definition chromeInfo :: browser_info where
  "chromeInfo =
     \<lparr>b_name = ''chrome'', b_displayName = ''Google Chrome'', b_processName = ''chrome.exe'',
      b_executable = ''/usr/bin/chrome'', b_icon = ''chrome'', b_pid = 1234, b_startTime = 1000\<rparr>"

definition detector1 :: detector where
  "detector1 =
     \<lparr>isRunning = True, scanInterval = True, activeBrowsers = [(1234, chromeInfo)],
      d_emitted = []\<rparr>"

section \<open>WebsiteClassifier and CategoryPatterns\<close>

subsection \<open>String operations\<close>

text \<open>
  Strings are byte strings; the case operations below change the ASCII letters only,
  which is what \<^verbatim>\<open>toLowerCase\<close> and \<^verbatim>\<open>toUpperCase\<close> do on ASCII input, and
  \<^verbatim>\<open>trim\<close> removes the ASCII white space.
\<close>

definition upperChars :: string where
  "upperChars = ''ABCDEFGHIJKLMNOPQRSTUVWXYZ''"

definition lowerChars :: string where
  "lowerChars = ''abcdefghijklmnopqrstuvwxyz''"

definition toLowerChar :: "char \<Rightarrow> char" where
  "toLowerChar ch = (case map_of (zip upperChars lowerChars) ch of None \<Rightarrow> ch | Some l \<Rightarrow> l)"

definition toUpperChar :: "char \<Rightarrow> char" where
  "toUpperChar ch = (case map_of (zip lowerChars upperChars) ch of None \<Rightarrow> ch | Some u \<Rightarrow> u)"

definition toLowerCase :: "string \<Rightarrow> string" where
  "toLowerCase s = map toLowerChar s"

definition isSpace :: "char \<Rightarrow> bool" where
  "isSpace ch = (ch \<in> set [CHR '' '', CHR 0x09, CHR 0x0A, CHR 0x0B, CHR 0x0C, CHR 0x0D])"

definition trim :: "string \<Rightarrow> string" where
  "trim s = rev (dropWhile isSpace (rev (dropWhile isSpace s)))"

fun startsWith :: "string \<Rightarrow> string \<Rightarrow> bool" where
  "startsWith [] s = True"
| "startsWith (p # ps) [] = False"
| "startsWith (p # ps) (x # xs) = (p = x \<and> startsWith ps xs)"

definition endsWith :: "string \<Rightarrow> string \<Rightarrow> bool" where
  "endsWith p s = startsWith (rev p) (rev s)"

fun includesStr :: "string \<Rightarrow> string \<Rightarrow> bool" where
  "includesStr p [] = (p = [])"
| "includesStr p (x # xs) = (startsWith p (x # xs) \<or> includesStr p xs)"

text \<open>\<^verbatim>\<open>s.split(c)\<close> and \<^verbatim>\<open>parts.join(c)\<close> for a one-character separator.\<close>

fun splitOn :: "char \<Rightarrow> string \<Rightarrow> string list" where
  "splitOn c [] = [[]]"
| "splitOn c (x # xs) =
     (if x = c then [] # splitOn c xs
      else (case splitOn c xs of [] \<Rightarrow> [[x]] | w # ws \<Rightarrow> (x # w) # ws))"

fun joinWith :: "char \<Rightarrow> string list \<Rightarrow> string" where
  "joinWith c [] = []"
| "joinWith c [w] = w"
| "joinWith c (w # ws) = w @ c # joinWith c ws"

text \<open>\<^verbatim>\<open>s.split(c)[0]\<close>\<close>

definition firstPart :: "char \<Rightarrow> string \<Rightarrow> string" where
  "firstPart c s = takeWhile (\<lambda>x. x \<noteq> c) s"

subsection \<open>CategoryPatterns\<close>

text \<open>
  The table of \<^verbatim>\<open>getPatterns()\<close> is a parameter: the own properties of the object
  literal in their order, each category with its display name, icon and domains. The
  literal has no \<^verbatim>\<open>__proto__\<close> entry and no category named by the string form of a
  built-in function or object.
\<close>

text \<open>
  Both the table and the domain map of \<^verbatim>\<open>getDomainCategoryMap\<close> are plain objects,
  read with \<^verbatim>\<open>obj[key]\<close>: a key that is not an own property is looked up in
  \<^verbatim>\<open>Object.prototype\<close>, whose properties are the names below. Their values are
  functions, and for \<^verbatim>\<open>__proto__\<close> the prototype object itself: all truthy, none
  a string, none with a \<^verbatim>\<open>displayName\<close> or \<^verbatim>\<open>icon\<close>.
\<close>

definition objectPrototypeNames :: "string list" where
  "objectPrototypeNames =
     [''constructor'', ''__defineGetter__'', ''__defineSetter__'', ''hasOwnProperty'',
      ''__lookupGetter__'', ''__lookupSetter__'', ''isPrototypeOf'', ''propertyIsEnumerable'',
      ''toString'', ''valueOf'', ''__proto__'', ''toLocaleString'']"

datatype 'a property = Absent | Own 'a | Inherited

text \<open>
  \<^verbatim>\<open>obj[key]\<close> for an object with the given own properties. \<^verbatim>\<open>__proto__\<close> is
  never an own property: reading it gives the prototype.
\<close>

definition getProperty :: "(string \<rightharpoonup> 'a) \<Rightarrow> string \<Rightarrow> 'a property" where
  "getProperty own key =
     (if key = ''__proto__'' then Inherited
      else
        (case own key of
           Some v \<Rightarrow> Own v
         | None \<Rightarrow> if key \<in> set objectPrototypeNames then Inherited else Absent))"

text \<open>A call of a method that the receiver does not have throws.\<close>

datatype js_error = TypeError

record category_def =
  c_displayName :: string
  c_icon :: string
  c_domains :: "string list"

type_synonym patterns = "(string \<times> category_def) list"

text \<open>
  \<^verbatim>\<open>getDomainCategoryMap\<close>, the own properties of the object it builds: a later
  assignment to the same domain overwrites, and \<^verbatim>\<open>map['__proto__'] = category\<close>
  with a string on the right creates no property.
\<close>

definition getDomainCategoryMap :: "patterns \<Rightarrow> (string \<rightharpoonup> string)" where
  "getDomainCategoryMap pats =
     fold (\<lambda>(cat, info) m.
             fold (\<lambda>d m'. if d = ''__proto__'' then m' else m'(d \<mapsto> cat)) (c_domains info) m)
       pats Map.empty"

definition isRestricted :: "string \<Rightarrow> bool" where
  "isRestricted categoryId = (categoryId \<in> set [''adult'', ''gambling''])"

text \<open>
  \<^verbatim>\<open>categoryId.charAt(0).toUpperCase() + categoryId.slice(1)\<close>
\<close>

definition capitalize :: "string \<Rightarrow> string" where
  "capitalize s = (case s of [] \<Rightarrow> [] | ch # rest \<Rightarrow> toUpperChar ch # rest)"

text \<open>
  \<^verbatim>\<open>getCategoryInfo\<close> for a string, its \<^verbatim>\<open>displayName\<close> and \<^verbatim>\<open>icon\<close>;
  \<open>None\<close> is \<^verbatim>\<open>undefined\<close>. An inherited property is truthy, so its
  \<^verbatim>\<open>displayName\<close> and \<^verbatim>\<open>icon\<close> are read, and both are undefined.
\<close>

definition getCategoryInfo :: "patterns \<Rightarrow> string \<Rightarrow> string option \<times> string option" where
  "getCategoryInfo pats categoryId =
     (case getProperty (map_of pats) categoryId of
        Absent \<Rightarrow> (Some (capitalize categoryId), Some ''web'')
      | Own info \<Rightarrow> (Some (c_displayName info), Some (c_icon info))
      | Inherited \<Rightarrow> (None, None))"

subsection \<open>The classifier\<close>

record classification =
  r_category :: string
  r_displayName :: "string option"
  r_icon :: "string option"
  r_confidence :: rat
  r_isRestricted :: bool

text \<open>
  \<^verbatim>\<open>cache\<close> is a Map whose insertion order decides what is evicted, so it is an
  association list; \<^verbatim>\<open>customRules\<close> is a Map read by key only.
\<close>

record classifier =
  cl_patterns :: patterns
  domainCategoryMap :: "string \<rightharpoonup> string"
  customRules :: "string \<rightharpoonup> string"
  cache :: "(string \<times> classification) list"
  cacheMaxSize :: nat

definition newClassifier :: "patterns \<Rightarrow> classifier" where
  "newClassifier pats =
     \<lparr>cl_patterns = pats, domainCategoryMap = getDomainCategoryMap pats,
      customRules = Map.empty, cache = [], cacheMaxSize = 1000\<rparr>"

text \<open>\<^verbatim>\<open>createResult\<close> for a category that is a string.\<close>

definition createResult :: "patterns \<Rightarrow> string \<Rightarrow> rat \<Rightarrow> classification" where
  "createResult pats cat conf =
     \<lparr>r_category = cat, r_displayName = fst (getCategoryInfo pats cat),
      r_icon = snd (getCategoryInfo pats cat), r_confidence = conf,
      r_isRestricted = isRestricted cat\<rparr>"

text \<open>
  \<^verbatim>\<open>new URL(s).hostname\<close> belongs to the platform: the parser is a parameter that
  gives the host name, or \<open>None\<close> where the constructor throws.
\<close>

type_synonym url_parser = "string \<Rightarrow> string option"

text \<open>The replacement of \<^verbatim>\<open>/^(https?:\/\/)?(www\.)?/\<close> by the empty string.\<close>

definition stripSchemeAndWww :: "string \<Rightarrow> string" where
  "stripSchemeAndWww s =
     (let s1 = (if startsWith ''https://'' s then drop 8 s
                else if startsWith ''http://'' s then drop 7 s else s)
      in if startsWith ''www.'' s1 then drop 4 s1 else s1)"

text \<open>
  \<^verbatim>\<open>extractDomain\<close> (lines 92-118). \<open>None\<close> is \<^verbatim>\<open>null\<close>; the empty string can be
  returned by the second branch.
\<close>

definition extractDomain :: "url_parser \<Rightarrow> string \<Rightarrow> string option" where
  "extractDomain url urlOrDomain =
     (if includesStr ''://'' urlOrDomain then
        (case url urlOrDomain of
           Some hostname \<Rightarrow> Some (toLowerCase hostname)
         | None \<Rightarrow>
             (let domain = trim (toLowerCase urlOrDomain);
                  domain1 = stripSchemeAndWww domain;
                  domain2 = firstPart CHR ''/'' domain1;
                  domain3 = firstPart CHR ''?'' domain2
              in if domain3 = [] then None else Some domain3))
      else
        (let domain = trim (toLowerCase urlOrDomain);
             domain1 = (if startsWith ''www.'' domain then drop 4 domain else domain)
         in Some (firstPart CHR ''/'' domain1)))"

text \<open>\<^verbatim>\<open>getParentDomain\<close> (lines 125-131).\<close>

definition getParentDomain :: "string \<Rightarrow> string option" where
  "getParentDomain domain =
     (let parts = splitOn CHR ''.'' domain
      in if length parts > 2 then Some (joinWith CHR ''.'' (tl parts)) else None)"

text \<open>
  \<^verbatim>\<open>matchDomain\<close>: \<^verbatim>\<open>this.domainCategoryMap[domain]\<close>, where an empty category
  string is falsy. An inherited value is truthy and not a string:
  \<^verbatim>\<open>createResult\<close> passes it to \<^verbatim>\<open>getCategoryInfo\<close>, which finds no category for
  it and calls \<^verbatim>\<open>categoryId.charAt\<close>, which the value does not have.
\<close>

definition matchDomain :: "classifier \<Rightarrow> string \<Rightarrow> js_error + classification option" where
  "matchDomain c domain =
     (case getProperty (domainCategoryMap c) domain of
        Absent \<Rightarrow> Inr None
      | Own cat \<Rightarrow>
          if cat = [] then Inr None else Inr (Some (createResult (cl_patterns c) cat 1))
      | Inherited \<Rightarrow> Inl TypeError)"

text \<open>\<^verbatim>\<open>matchPattern\<close> (lines 151-191).\<close>

definition matchPattern :: "patterns \<Rightarrow> string \<Rightarrow> classification option" where
  "matchPattern pats domain =
     (if includesStr ''game'' domain \<or> includesStr ''play'' domain \<or>
         endsWith ''.gg'' domain \<or> includesStr ''arcade'' domain
      then Some (createResult pats ''gaming'' (7 / 10))
      else if endsWith ''.edu'' domain \<or> includesStr ''learn'' domain \<or>
         includesStr ''course'' domain \<or> includesStr ''school'' domain \<or>
         includesStr ''academy'' domain
      then Some (createResult pats ''education'' (7 / 10))
      else if includesStr ''news'' domain \<or> includesStr ''daily'' domain \<or>
         includesStr ''times'' domain \<or> includesStr ''post'' domain \<or>
         includesStr ''herald'' domain \<or> includesStr ''tribune'' domain
      then Some (createResult pats ''news'' (6 / 10))
      else if includesStr ''shop'' domain \<or> includesStr ''store'' domain \<or>
         includesStr ''buy'' domain \<or> includesStr ''market'' domain
      then Some (createResult pats ''shopping'' (6 / 10))
      else if includesStr ''video'' domain \<or> includesStr ''stream'' domain \<or>
         includesStr ''watch'' domain \<or> includesStr ''tv'' domain
      then Some (createResult pats ''video'' (6 / 10))
      else if includesStr ''social'' domain \<or> includesStr ''chat'' domain \<or>
         includesStr ''forum'' domain \<or> includesStr ''community'' domain
      then Some (createResult pats ''social'' (5 / 10))
      else None)"

text \<open>
  \<^verbatim>\<open>addToCache\<close> (lines 215-226): at the size limit the first 100 keys are deleted,
  then the entry is set.
\<close>

definition addToCache :: "string \<Rightarrow> classification \<Rightarrow> classifier \<Rightarrow> classifier" where
  "addToCache domain result c =
     (let kept = (if length (cache c) \<ge> cacheMaxSize c
                  then fold AList.delete (take 100 (map fst (cache c))) (cache c)
                  else cache c)
      in c\<lparr>cache := AList.update domain result kept\<rparr>)"

text \<open>
  Lines 63-81 of \<^verbatim>\<open>classify\<close>: exact match, then the parent domain, then the
  heuristics, then \<^verbatim>\<open>other\<close>. An error thrown by a lookup ends the call.
\<close>

definition staticResult :: "classifier \<Rightarrow> string \<Rightarrow> js_error + classification" where
  "staticResult c domain =
     (case matchDomain c domain of
        Inl e \<Rightarrow> Inl e
      | Inr result \<Rightarrow>
          (case (case result of
                   Some r \<Rightarrow> Inr (Some r)
                 | None \<Rightarrow>
                     (case getParentDomain domain of
                        None \<Rightarrow> Inr None
                      | Some parentDomain \<Rightarrow>
                          if parentDomain = [] then Inr None
                          else matchDomain c parentDomain)) of
             Inl e \<Rightarrow> Inl e
           | Inr result1 \<Rightarrow>
               (let result2 = (case result1 of
                                 Some r \<Rightarrow> Some r
                               | None \<Rightarrow> matchPattern (cl_patterns c) domain)
                in Inr (case result2 of
                          Some r \<Rightarrow> r
                        | None \<Rightarrow> createResult (cl_patterns c) ''other'' 0))))"

text \<open>
  \<^verbatim>\<open>classify\<close> (lines 39-85): the result and the classifier with its cache
  updated, or the error thrown; nothing is written before a lookup throws.
\<close>

definition classify ::
  "url_parser \<Rightarrow> string \<Rightarrow> classifier \<Rightarrow> js_error + classification \<times> classifier" where
  "classify url urlOrDomain c =
     (if urlOrDomain = [] then Inr (createResult (cl_patterns c) ''other'' 0, c)
      else
        (case extractDomain url urlOrDomain of
           None \<Rightarrow> Inr (createResult (cl_patterns c) ''other'' 0, c)
         | Some domain \<Rightarrow>
             if domain = [] then Inr (createResult (cl_patterns c) ''other'' 0, c)
             else
               (case map_of (cache c) domain of
                  Some cached \<Rightarrow> Inr (cached, c)
                | None \<Rightarrow>
                    (case customRules c domain of
                       Some cat \<Rightarrow>
                         (let result = createResult (cl_patterns c) cat 1
                          in Inr (result, addToCache domain result c))
                     | None \<Rightarrow>
                         (case staticResult c domain of
                            Inl e \<Rightarrow> Inl e
                          | Inr result \<Rightarrow> Inr (result, addToCache domain result c))))))"

text \<open>What a call of \<^verbatim>\<open>classify\<close> returns or throws, and the classifier after the call.\<close>

definition classified :: "url_parser \<Rightarrow> string \<Rightarrow> classifier \<Rightarrow> js_error + classification" where
  "classified url x c = map_sum id fst (classify url x c)"

definition classifierAfter :: "url_parser \<Rightarrow> string \<Rightarrow> classifier \<Rightarrow> classifier" where
  "classifierAfter url x c = (case classify url x c of Inl e \<Rightarrow> c | Inr (r, c') \<Rightarrow> c')"

text \<open>\<^verbatim>\<open>addCustomRule\<close>, \<^verbatim>\<open>removeCustomRule\<close> and \<^verbatim>\<open>clearCache\<close>.\<close>

definition addCustomRule :: "url_parser \<Rightarrow> string \<Rightarrow> string \<Rightarrow> classifier \<Rightarrow> classifier" where
  "addCustomRule url domain cat c =
     (case extractDomain url domain of
        None \<Rightarrow> c
      | Some cleanDomain \<Rightarrow>
          if cleanDomain = [] then c
          else c\<lparr>customRules := (customRules c)(cleanDomain \<mapsto> cat),
                 cache := AList.delete cleanDomain (cache c)\<rparr>)"

definition removeCustomRule :: "url_parser \<Rightarrow> string \<Rightarrow> classifier \<Rightarrow> classifier" where
  "removeCustomRule url domain c =
     (case extractDomain url domain of
        None \<Rightarrow> c
      | Some cleanDomain \<Rightarrow>
          if cleanDomain = [] then c
          else c\<lparr>customRules := (customRules c)(cleanDomain := None),
                 cache := AList.delete cleanDomain (cache c)\<rparr>)"

definition classifierClearCache :: "classifier \<Rightarrow> classifier" where
  "classifierClearCache c = c\<lparr>cache := []\<rparr>"

text \<open>The states a classifier can reach through its methods.\<close>

inductive reachableC :: "url_parser \<Rightarrow> classifier \<Rightarrow> bool" for url where
  rc_new: "reachableC url (newClassifier pats)"
| rc_classify: "reachableC url c \<Longrightarrow> reachableC url (classifierAfter url x c)"
| rc_add: "reachableC url c \<Longrightarrow> reachableC url (addCustomRule url x cat c)"
| rc_remove: "reachableC url c \<Longrightarrow> reachableC url (removeCustomRule url x c)"
| rc_clear: "reachableC url c \<Longrightarrow> reachableC url (classifierClearCache c)"

text \<open>What an uncached lookup of a normalised domain gives.\<close>

definition resolve :: "classifier \<Rightarrow> string \<Rightarrow> js_error + classification" where
  "resolve c domain =
     (case customRules c domain of
        Some cat \<Rightarrow> Inr (createResult (cl_patterns c) cat 1)
      | None \<Rightarrow> staticResult c domain)"

text \<open>A static table with the single domain youtube.com, and a parser that is never asked.\<close>

definition youtubeOnly :: patterns where
  "youtubeOnly =
     [(''video'', \<lparr>c_displayName = ''Video Streaming'', c_icon = ''play_circle'',
                  c_domains = [''youtube.com'']\<rparr>)]"

definition noUrl :: url_parser where
  "noUrl = (\<lambda>s. None)"

text \<open>The classifier after youtube.com was classified and then given a custom rule.\<close>

definition classifierCustom :: classifier where
  "classifierCustom =
     addCustomRule noUrl ''youtube.com'' ''education''
       (classifierAfter noUrl ''youtube.com'' (newClassifier youtubeOnly))"

text \<open>Every cached result is what an uncached lookup would give now.\<close>

definition cacheOk :: "classifier \<Rightarrow> bool" where
  "cacheOk c = (\<forall>d r. map_of (cache c) d = Some r \<longrightarrow> resolve c d = Inr r)"

section \<open>Properties of the quota arbiter\<close>

subsection \<open>Helper facts\<close>

lemma fetchAllowance_frame:
  "fetchAllowance c ty now auth s = (r, s1) \<Longrightarrow>
     emitted s1 = emitted s \<and> warningStates s1 = warningStates s \<and>
     warningMinutes s1 = warningMinutes s \<and> has_client s1 = has_client s"
  by (auto simp: fetchAllowance_def Let_def split: option.splits if_splits reply.splits)

lemma fetchAllowance_steady:
  "fetchAllowance c ty now (steadyAuthority n) (newEnforcer True wm) =
     (Some (allowanceWith True n), snd (fetchAllowance c ty now (steadyAuthority n) (newEnforcer True wm)))"
  by (simp add: fetchAllowance_def newEnforcer_def steadyAuthority_def Let_def)

text \<open>The loop stops at the first threshold that is due and not yet flagged.\<close>

lemma warningLoop_find:
  "warningLoop ag c ty rm ws ths s =
     (case find (\<lambda>th. rm \<le> of_int th \<and> \<not> flagged ws (warningKey th)) ths of
        None \<Rightarrow> s
      | Some th \<Rightarrow>
          (emit (ShowWarning ag c rm ty (urgencyOf th)) s)
            \<lparr>warningStates := (warningStates s)(c \<mapsto> ws(warningKey th \<mapsto> True))\<rparr>)"
  by (induction ths) (simp_all add: emit_def Let_def)

lemma checkWarnings_find:
  "checkWarnings ag c ty secs s =
     (let ths = sortDescending (case warningMinutes s of None \<Rightarrow> [15, 5, 1] | Some w \<Rightarrow> w);
          ws = (case warningStates s c of None \<Rightarrow> Map.empty | Some w \<Rightarrow> w);
          rm = of_int secs / 60;
          s2 = s\<lparr>warningMinutes := map_option (\<lambda>_. ths) (warningMinutes s),
                  warningStates := (warningStates s)(c \<mapsto> ws)\<rparr>
      in case find (\<lambda>th. rm \<le> of_int th \<and> \<not> flagged ws (warningKey th)) ths of
           None \<Rightarrow> s2
         | Some th \<Rightarrow> s2\<lparr>emitted := emitted s @ [ShowWarning ag c rm ty (urgencyOf th)],
                          warningStates := (warningStates s)(c \<mapsto> ws(warningKey th \<mapsto> True))\<rparr>)"
  by (auto simp: checkWarnings_def Let_def getWarningState_def warningLoop_find emit_def
           map_upd_triv split: option.splits)

subsection \<open>C1: the decision order\<close>

text \<open>
  C1, as the claim states it, fails in its last clause: a call that finds the quota
  exhausted emits the block event, but \<^verbatim>\<open>checkQuota\<close> records no exhausted flag.
  After such a call on a fresh enforcer there is no per-child state at all.
\<close>

theorem checkQuota_exhausted_sets_no_flag:
  "emitted (checkQuota ''agent1'' ''child1'' ''internet'' 0 (steadyAuthority 0) enforcer0) =
     [BlockBrowsers ''agent1'' ''child1'' ''Daily internet time exhausted''] \<and>
   warningStates (checkQuota ''agent1'' ''child1'' ''internet'' 0 (steadyAuthority 0) enforcer0)
     = Map.empty"
  by (simp add: checkQuota_def fetchAllowance_def enforcer0_def newEnforcer_def
      steadyAuthority_def allowanceWith_def decide_def emit_def Let_def cacheKeyOf_def)

text \<open>
  C1, amended: whenever the authority (or the fresh cache) yields an allowance, the call
  emits at most one event, and the decision follows the order: banned or
  activity-blocked gives a block with the authority's reason, or "Activity is blocked"
  when the reason is missing or empty; else not allowed gives a block with
  "Internet time not allowed"; else \<open>remaining_seconds = -1\<close> gives no event; else
  \<open>remaining_seconds \<le> 0\<close> gives a block with "Daily internet time exhausted". None of
  these four branches changes the per-child warning state: no exhausted flag exists.
\<close>

theorem checkQuota_decision_order:
  assumes "has_client s" and "fetchAllowance c ty now auth s = (Some a, s1)"
  shows "let s' = checkQuota ag c ty now auth s in
     (is_banned a \<or> is_activity_blocked a \<longrightarrow>
        emitted s' = emitted s @ [BlockBrowsers ag c
          (if ban_reason a = None \<or> ban_reason a = Some [] then ''Activity is blocked''
           else the (ban_reason a))] \<and> warningStates s' = warningStates s) \<and>
     (\<not> is_banned a \<and> \<not> is_activity_blocked a \<and> \<not> allowed a \<longrightarrow>
        emitted s' = emitted s @ [BlockBrowsers ag c ''Internet time not allowed''] \<and>
        warningStates s' = warningStates s) \<and>
     (\<not> is_banned a \<and> \<not> is_activity_blocked a \<and> allowed a \<and> remaining_seconds a = - 1 \<longrightarrow>
        emitted s' = emitted s \<and> warningStates s' = warningStates s) \<and>
     (\<not> is_banned a \<and> \<not> is_activity_blocked a \<and> allowed a \<and> remaining_seconds a \<noteq> - 1 \<and>
      remaining_seconds a \<le> 0 \<longrightarrow>
        emitted s' = emitted s @ [BlockBrowsers ag c ''Daily internet time exhausted''] \<and>
        warningStates s' = warningStates s) \<and>
     (\<exists>evs. emitted s' = emitted s @ evs \<and> length evs \<le> 1)"
proof -
  note fr = fetchAllowance_frame [OF assms(2)]
  have cq: "checkQuota ag c ty now auth s = decide ag c ty a s1"
    using assms by (simp add: checkQuota_def)
  have reason: "blockReason a =
      (if ban_reason a = None \<or> ban_reason a = Some [] then ''Activity is blocked''
       else the (ban_reason a))"
    by (auto simp: blockReason_def split: option.splits)
  have warn: "\<exists>evs. emitted (checkWarnings ag c ty n s1) = emitted s1 @ evs \<and> length evs \<le> 1" for n
    by (auto simp: checkWarnings_find Let_def split: option.splits)
  have atmost: "\<exists>evs. emitted (decide ag c ty a s1) = emitted s @ evs \<and> length evs \<le> 1"
    using warn fr by (auto simp: decide_def emit_def)
  show ?thesis
    unfolding Let_def cq
    using fr atmost reason by (auto simp: decide_def emit_def)
qed

theorem checkQuota_decision_order_witness:
  "has_client enforcer0 \<and>
   emitted (checkQuota ''agent1'' ''child1'' ''internet'' 0 (steadyAuthority (- 5)) enforcer0) =
     [BlockBrowsers ''agent1'' ''child1'' ''Daily internet time exhausted''] \<and>
   warningStates (checkQuota ''agent1'' ''child1'' ''internet'' 0 (steadyAuthority (- 5)) enforcer0) =
     Map.empty"
proof -
  have h1: "has_client enforcer0"
    by (simp add: enforcer0_def newEnforcer_def)
  have h2: "fetchAllowance ''child1'' ''internet'' 0 (steadyAuthority (- 5)) enforcer0 =
      (Some (allowanceWith True (- 5)),
       snd (fetchAllowance ''child1'' ''internet'' 0 (steadyAuthority (- 5)) enforcer0))"
    unfolding enforcer0_def by (rule fetchAllowance_steady)
  show ?thesis
    using h1 checkQuota_decision_order [OF h1 h2, of "''agent1''"]
    by (simp add: Let_def allowanceWith_def enforcer0_def newEnforcer_def)
qed

subsection \<open>C2: fail-open on authority error\<close>

text \<open>
  C2: when the authority is consulted (no fresh cache entry) and the call throws or
  returns no allowance, \<^verbatim>\<open>checkQuota\<close> emits no event, neither block-browsers nor
  show-warning, and leaves every child's warning flags as they were.
\<close>

theorem checkQuota_fail_open:
  assumes "auth (allowanceCall c ty) = Throws \<or> auth (allowanceCall c ty) = Returns None"
    and "\<not> cacheFresh s c ty now"
  shows "emitted (checkQuota ag c ty now auth s) = emitted s \<and>
         warningStates (checkQuota ag c ty now auth s) = warningStates s"
  using assms
  by (auto simp: checkQuota_def fetchAllowance_def cacheFresh_def Let_def
           split: option.splits if_splits reply.splits)

theorem checkQuota_fail_open_witness:
  "failingAuthority (allowanceCall ''child1'' ''internet'') = Throws \<and>
   \<not> cacheFresh enforcer0 ''child1'' ''internet'' 0 \<and>
   emitted (checkQuota ''agent1'' ''child1'' ''internet'' 0 failingAuthority enforcer0) = [] \<and>
   warningStates (checkQuota ''agent1'' ''child1'' ''internet'' 0 failingAuthority enforcer0) =
     Map.empty"
proof -
  have h1: "failingAuthority (allowanceCall ''child1'' ''internet'') = Throws \<or>
            failingAuthority (allowanceCall ''child1'' ''internet'') = Returns None"
    by (simp add: failingAuthority_def)
  have h2: "\<not> cacheFresh enforcer0 ''child1'' ''internet'' 0"
    by (simp add: cacheFresh_def enforcer0_def newEnforcer_def)
  show ?thesis
    using h1 h2
      checkQuota_fail_open [where auth = failingAuthority and c = "''child1''"
        and ty = "''internet''" and s = enforcer0 and now = 0 and ag = "''agent1''"]
    by (simp add: enforcer0_def newEnforcer_def failingAuthority_def)
qed

lemma flagSet_flagsOf: "flagSet s c th = flagged (flagsOf s c) (warningKey th)"
  by (simp add: flagSet_def flagsOf_def flagged_def split: option.splits)

lemma checkQuota_warn_eq:
  assumes "has_client s" "fetchAllowance c ty now auth s = (Some a, s1)"
    "\<not> is_banned a" "\<not> is_activity_blocked a" "allowed a" "0 < remaining_seconds a"
  shows "checkQuota ag c ty now auth s = checkWarnings ag c ty (remaining_seconds a) s1"
  using assms by (simp add: checkQuota_def decide_def)

lemma sortDescending_props:
  "sorted (rev (sortDescending xs)) \<and> mset (sortDescending xs) = mset xs"
  by (simp add: sortDescending_def)

subsection \<open>C3: the warning scan\<close>

text \<open>
  C3: on a call where the child is allowed (not banned, not activity-blocked, allowed)
  and \<open>0 < remaining_seconds\<close>, the configured thresholds are scanned in descending
  order and at most one warning is emitted: the first threshold with
  remaining-minutes \<open>\<le>\<close> threshold and an unset flag fires, with urgency critical when
  the threshold is \<open>\<le> 1\<close>, high when \<open>\<le> 5\<close>, normal otherwise; exactly that
  threshold's flag is set and nothing after it is touched. When no threshold
  qualifies, nothing is emitted.
\<close>

theorem checkQuota_warning_scan:
  assumes "has_client s" and "fetchAllowance c ty now auth s = (Some a, s1)"
    and "\<not> is_banned a" and "\<not> is_activity_blocked a" and "allowed a"
    and "0 < remaining_seconds a"
  shows "let s' = checkQuota ag c ty now auth s;
             ths = sortDescending (configured s);
             ws = flagsOf s c;
             rm = of_int (remaining_seconds a) / 60
         in sorted (rev ths) \<and> mset ths = mset (configured s) \<and>
            (\<exists>evs. emitted s' = emitted s @ evs \<and> length evs \<le> 1) \<and>
            (case find (\<lambda>th. rm \<le> of_int th \<and> \<not> flagged ws (warningKey th)) ths of
               None \<Rightarrow> emitted s' = emitted s \<and> warningStates s' = (warningStates s)(c \<mapsto> ws)
             | Some th \<Rightarrow>
                 emitted s' = emitted s @
                   [ShowWarning ag c rm ty
                      (if th \<le> 1 then critical else if th \<le> 5 then high else normal)] \<and>
                 warningStates s' = (warningStates s)(c \<mapsto> ws(warningKey th \<mapsto> True)))"
proof -
  note fr = fetchAllowance_frame [OF assms(2)]
  have eq: "checkQuota ag c ty now auth s = checkWarnings ag c ty (remaining_seconds a) s1"
    by (rule checkQuota_warn_eq [OF assms])
  have cfg: "configured s1 = configured s" and fl: "flagsOf s1 c = flagsOf s c"
    using fr by (simp_all add: configured_def flagsOf_def)
  show ?thesis
    unfolding Let_def eq
    using fr cfg fl sortDescending_props [of "configured s"]
    by (auto simp: checkWarnings_find Let_def urgencyOf_def configured_def flagsOf_def
             split: option.splits)
qed

lemma enforcer0_fetch:
  "fetchAllowance c ty now (steadyAuthority n) enforcer0 =
     (Some (allowanceWith True n), snd (fetchAllowance c ty now (steadyAuthority n) enforcer0))"
  unfolding enforcer0_def by (rule fetchAllowance_steady)

theorem checkQuota_warning_scan_witness:
  "has_client enforcer0 \<and> 0 < remaining_seconds (allowanceWith True 30) \<and>
   emitted (checkQuota ''agent1'' ''child1'' ''internet'' 0 (steadyAuthority 30) enforcer0) =
     [ShowWarning ''agent1'' ''child1'' (1 / 2) ''internet'' normal]"
proof -
  have h1: "has_client enforcer0"
    by (simp add: enforcer0_def newEnforcer_def)
  have h3: "\<not> is_banned (allowanceWith True 30)" "\<not> is_activity_blocked (allowanceWith True 30)"
    "allowed (allowanceWith True 30)" "0 < remaining_seconds (allowanceWith True 30)"
    by (simp_all add: allowanceWith_def)
  show ?thesis
    using h1 h3(4) checkQuota_warning_scan [OF h1 enforcer0_fetch h3, of "''agent1''"]
    by (simp add: Let_def allowanceWith_def enforcer0_def newEnforcer_def configured_def
        flagsOf_def sortDescending_def flagged_def)
qed

subsection \<open>What one call can do to events and flags\<close>

lemma checkWarnings_cases:
  "(emitted (checkWarnings ag c ty secs s) = emitted s \<and>
      warningStates (checkWarnings ag c ty secs s) = (warningStates s)(c \<mapsto> flagsOf s c)) \<or>
   (\<exists>th. th \<in> set (configured s) \<and> of_int secs / 60 \<le> (of_int th :: rat) \<and> \<not> flagSet s c th \<and>
      emitted (checkWarnings ag c ty secs s) =
        emitted s @ [ShowWarning ag c (of_int secs / 60) ty (urgencyOf th)] \<and>
      warningStates (checkWarnings ag c ty secs s) =
        (warningStates s)(c \<mapsto> (flagsOf s c)(warningKey th \<mapsto> True)))"
proof (cases "find (\<lambda>th. of_int secs / 60 \<le> (of_int th :: rat) \<and> \<not> flagged (flagsOf s c) (warningKey th))
                (sortDescending (configured s))")
  case None
  then show ?thesis
    by (simp add: checkWarnings_find Let_def configured_def flagsOf_def)
next
  case (Some th)
  then have "th \<in> set (sortDescending (configured s))"
    and "of_int secs / 60 \<le> (of_int th :: rat)" and "\<not> flagged (flagsOf s c) (warningKey th)"
    by (auto simp: find_Some_iff)
  then have "th \<in> set (configured s)" "\<not> flagSet s c th"
    by (simp_all add: sortDescending_def flagSet_flagsOf)
  with Some \<open>of_int secs / 60 \<le> (of_int th :: rat)\<close> show ?thesis
    by (intro disjI2 exI [of _ th]) (simp add: checkWarnings_find Let_def configured_def flagsOf_def)
qed

lemma checkQuota_cases:
  "(emitted (checkQuota ag c ty now auth s) = emitted s \<and>
      (\<forall>c' th. flagSet (checkQuota ag c ty now auth s) c' th = flagSet s c' th)) \<or>
   (\<exists>r. emitted (checkQuota ag c ty now auth s) = emitted s @ [BlockBrowsers ag c r] \<and>
      warningStates (checkQuota ag c ty now auth s) = warningStates s) \<or>
   (\<exists>th rm. th \<in> set (configured s) \<and> rm \<le> (of_int th :: rat) \<and> \<not> flagSet s c th \<and>
      emitted (checkQuota ag c ty now auth s) =
        emitted s @ [ShowWarning ag c rm ty (urgencyOf th)] \<and>
      warningStates (checkQuota ag c ty now auth s) =
        (warningStates s)(c \<mapsto> (flagsOf s c)(warningKey th \<mapsto> True)))"
proof (cases "has_client s")
  case False
  then show ?thesis by (simp add: checkQuota_def)
next
  case True
  obtain r s1 where f: "fetchAllowance c ty now auth s = (r, s1)"
    by (cases "fetchAllowance c ty now auth s")
  note fr = fetchAllowance_frame [OF f]
  have same: "\<And>c' th. flagSet s1 c' th = flagSet s c' th"
    using fr by (simp add: flagSet_def)
  show ?thesis
  proof (cases r)
    case None
    then show ?thesis using True f same fr by (simp add: checkQuota_def)
  next
    case (Some a)
    have cq: "checkQuota ag c ty now auth s = decide ag c ty a s1"
      using True f Some by (simp add: checkQuota_def)
    have cfg: "configured s1 = configured s" "flagsOf s1 c = flagsOf s c"
      using fr by (simp_all add: configured_def flagsOf_def)
    have "(\<exists>reason. decide ag c ty a s1 = emit (BlockBrowsers ag c reason) s1) \<or>
          decide ag c ty a s1 = s1 \<or>
          decide ag c ty a s1 = checkWarnings ag c ty (remaining_seconds a) s1"
      unfolding decide_def by (cases "is_banned a \<or> is_activity_blocked a"; cases "allowed a";
          cases "remaining_seconds a = - 1"; cases "remaining_seconds a \<le> 0") auto
    then consider (block) reason where "decide ag c ty a s1 = emit (BlockBrowsers ag c reason) s1"
      | (unlimited) "decide ag c ty a s1 = s1"
      | (warn) "decide ag c ty a s1 = checkWarnings ag c ty (remaining_seconds a) s1"
      by blast
    then show ?thesis
    proof cases
      case block
      then show ?thesis unfolding cq using fr by (auto simp: emit_def)
    next
      case unlimited
      then show ?thesis unfolding cq using fr same by simp
    next
      case warn
      from checkWarnings_cases [of ag c ty "remaining_seconds a" s1]
      show ?thesis
      proof
        assume a1: "emitted (checkWarnings ag c ty (remaining_seconds a) s1) = emitted s1 \<and>
          warningStates (checkWarnings ag c ty (remaining_seconds a) s1) =
            (warningStates s1)(c \<mapsto> flagsOf s1 c)"
        have "\<And>c' th. flagSet (checkWarnings ag c ty (remaining_seconds a) s1) c' th = flagSet s c' th"
          using a1 fr by (simp add: flagSet_def flagsOf_def flagged_def split: option.splits)
        then show ?thesis unfolding cq warn using a1 fr by simp
      next
        assume "\<exists>th. th \<in> set (configured s1) \<and>
          of_int (remaining_seconds a) / 60 \<le> (of_int th :: rat) \<and> \<not> flagSet s1 c th \<and>
          emitted (checkWarnings ag c ty (remaining_seconds a) s1) =
            emitted s1 @ [ShowWarning ag c (of_int (remaining_seconds a) / 60) ty (urgencyOf th)] \<and>
          warningStates (checkWarnings ag c ty (remaining_seconds a) s1) =
            (warningStates s1)(c \<mapsto> (flagsOf s1 c)(warningKey th \<mapsto> True))"
        then obtain th where th: "th \<in> set (configured s)"
          "of_int (remaining_seconds a) / 60 \<le> (of_int th :: rat)" "\<not> flagSet s c th"
          "emitted (checkWarnings ag c ty (remaining_seconds a) s1) =
            emitted s @ [ShowWarning ag c (of_int (remaining_seconds a) / 60) ty (urgencyOf th)]"
          "warningStates (checkWarnings ag c ty (remaining_seconds a) s1) =
            (warningStates s)(c \<mapsto> (flagsOf s c)(warningKey th \<mapsto> True))"
          unfolding cfg same using fr by auto
        have "\<exists>th rm. th \<in> set (configured s) \<and> rm \<le> (of_int th :: rat) \<and> \<not> flagSet s c th \<and>
            emitted (checkQuota ag c ty now auth s) =
              emitted s @ [ShowWarning ag c rm ty (urgencyOf th)] \<and>
            warningStates (checkQuota ag c ty now auth s) =
              (warningStates s)(c \<mapsto> (flagsOf s c)(warningKey th \<mapsto> True))"
          unfolding cq warn using th by blast
        then show ?thesis by blast
      qed
    qed
  qed
qed

lemma checkQuota_flag_kept:
  assumes "flagSet s c th"
  shows "flagSet (checkQuota ag c' ty now auth s) c th"
  using checkQuota_cases [of ag c' ty now auth s] assms
  by (auto simp: flagSet_def flagsOf_def flagged_def split: option.splits)

lemma checkQuota_warning_origin:
  assumes "ShowWarning ag' c' rm ty' u \<in> set (drop (length (emitted s)) (emitted (checkQuota ag c ty now auth s)))"
  shows "\<exists>th. th \<in> set (configured s) \<and> rm \<le> of_int th \<and> u = urgencyOf th \<and>
           \<not> flagSet s c th \<and> flagSet (checkQuota ag c ty now auth s) c th"
  using checkQuota_cases [of ag c ty now auth s] assms
  by (auto simp: flagSet_def flagged_def)

lemma enforcerWarned_eval:
  "enforcerWarned =
     \<lparr>has_client = True, warningMinutes = Some [15, 5, 1],
      warningStates = [''child1'' \<mapsto> [warningKey 15 \<mapsto> True]],
      quotaCache = [''child1:internet'' \<mapsto>
         \<lparr>ce_allowance = Some (allowanceWith True 600), ce_timestamp = 0\<rparr>],
      emitted = [ShowWarning ''agent1'' ''child1'' 10 ''internet'' normal],
      calls = [allowanceCall ''child1'' ''internet'']\<rparr>"
  by (simp add: enforcerWarned_def checkQuota_def fetchAllowance_def enforcer0_def
      newEnforcer_def steadyAuthority_def decide_def checkWarnings_def getWarningState_def
      sortDescending_def emit_def Let_def cacheKeyOf_def flagged_def urgencyOf_def
      allowanceWith_def)

subsection \<open>C4: warning flags\<close>

text \<open>
  C4, as the claim states it, fails in its second half. The 15-minute warning fires at
  ten minutes left; the authority then reports twenty minutes, and later ten minutes
  again. The third call emits nothing: the flag is still set.
\<close>

theorem warning_not_refired_after_rise:
  "emitted (checkQuota ''agent1'' ''child1'' ''internet'' 20000 (steadyAuthority 600)
      (checkQuota ''agent1'' ''child1'' ''internet'' 10000 (steadyAuthority 1200)
        (checkQuota ''agent1'' ''child1'' ''internet'' 0 (steadyAuthority 600) enforcer0))) =
     [ShowWarning ''agent1'' ''child1'' 10 ''internet'' normal]"
  unfolding enforcerWarned_def [symmetric] enforcerWarned_eval
  by (simp add: checkQuota_def fetchAllowance_def
      steadyAuthority_def decide_def checkWarnings_def getWarningState_def
      sortDescending_def emit_def Let_def cacheKeyOf_def flagged_def urgencyOf_def
      allowanceWith_def cacheTTL_def)

text \<open>
  C4, amended: a warning flag, once set, stays set through every later
  \<^verbatim>\<open>checkQuota\<close> call, whatever remaining quota the authority reports, and every
  warning a call emits belongs to a threshold whose flag was unset before that call, so
  a set flag suppresses its threshold. Only \<^verbatim>\<open>resetWarningState\<close> (or
  \<^verbatim>\<open>cleanup\<close>) clears the flag; after a reset, a check that is due at the
  threshold warns again.
\<close>

theorem warning_flag_sticky:
  assumes "flagSet s c th"
  shows "flagSet (checkQuota ag c' ty now auth s) c th \<and>
     (\<forall>rm u. ShowWarning ag c rm ty u \<in>
          set (drop (length (emitted s)) (emitted (checkQuota ag c ty now auth s))) \<longrightarrow>
        (\<exists>th'. th' \<in> set (configured s) \<and> warningKey th' \<noteq> warningKey th \<and>
           rm \<le> of_int th' \<and> u = urgencyOf th' \<and> \<not> flagSet s c th')) \<and>
     \<not> flagSet (resetWarningState c s) c th \<and>
     \<not> flagSet (enforcerCleanup s) c th \<and>
     (th \<in> set (configured s) \<and> has_client s \<and>
      fetchAllowance c ty now auth (resetWarningState c s) = (Some a, s1) \<and>
      \<not> is_banned a \<and> \<not> is_activity_blocked a \<and> allowed a \<and> 0 < remaining_seconds a \<and>
      of_int (remaining_seconds a) / 60 \<le> (of_int th :: rat) \<longrightarrow>
        (\<exists>u. emitted (checkQuota ag c ty now auth (resetWarningState c s)) =
           emitted s @ [ShowWarning ag c (of_int (remaining_seconds a) / 60) ty u]))"
proof (intro conjI allI impI)
  show "flagSet (checkQuota ag c' ty now auth s) c th"
    by (rule checkQuota_flag_kept [OF assms])
next
  fix rm u
  assume "ShowWarning ag c rm ty u \<in>
      set (drop (length (emitted s)) (emitted (checkQuota ag c ty now auth s)))"
  from checkQuota_warning_origin [OF this]
  obtain th' where t: "th' \<in> set (configured s)" "rm \<le> of_int th'" "u = urgencyOf th'"
    "\<not> flagSet s c th'"
    by blast
  from t(4) assms have "warningKey th' \<noteq> warningKey th"
    by (auto simp: flagSet_flagsOf)
  with t show "\<exists>th'. th' \<in> set (configured s) \<and> warningKey th' \<noteq> warningKey th \<and>
           rm \<le> of_int th' \<and> u = urgencyOf th' \<and> \<not> flagSet s c th'"
    by blast
next
  show "\<not> flagSet (resetWarningState c s) c th"
    by (simp add: flagSet_def resetWarningState_def)
next
  show "\<not> flagSet (enforcerCleanup s) c th"
    by (simp add: flagSet_def enforcerCleanup_def)
next
  let ?r = "resetWarningState c s"
  let ?rm = "of_int (remaining_seconds a) / 60 :: rat"
  assume h: "th \<in> set (configured s) \<and> has_client s \<and>
      fetchAllowance c ty now auth ?r = (Some a, s1) \<and>
      \<not> is_banned a \<and> \<not> is_activity_blocked a \<and> allowed a \<and> 0 < remaining_seconds a \<and>
      ?rm \<le> (of_int th :: rat)"
  then have f: "fetchAllowance c ty now auth ?r = (Some a, s1)" by simp
  note fr = fetchAllowance_frame [OF f]
  have hc: "has_client ?r" using h by (simp add: resetWarningState_def)
  have eq: "checkQuota ag c ty now auth ?r = checkWarnings ag c ty (remaining_seconds a) s1"
    using h by (intro checkQuota_warn_eq [OF hc f]) simp_all
  have ws: "warningStates s1 c = None" and wm: "warningMinutes s1 = warningMinutes s"
    and em: "emitted s1 = emitted s"
    using fr by (simp_all add: resetWarningState_def)
  let ?P = "\<lambda>t. ?rm \<le> (of_int t :: rat) \<and> \<not> flagged Map.empty (warningKey t)"
  have "th \<in> set (sortDescending (configured s))" "?P th"
    using h by (simp_all add: sortDescending_def flagged_def)
  then have "find ?P (sortDescending (configured s)) \<noteq> None"
    by (auto simp: find_None_iff)
  then obtain t where "find ?P (sortDescending (configured s)) = Some t" by blast
  then show "\<exists>u. emitted (checkQuota ag c ty now auth ?r) = emitted s @ [ShowWarning ag c ?rm ty u]"
    unfolding eq using ws wm em
    by (simp add: checkWarnings_find Let_def configured_def)
qed

theorem warning_flag_sticky_witness:
  "flagSet enforcerWarned ''child1'' 15 \<and>
   flagSet (checkQuota ''agent1'' ''child1'' ''internet'' 10000 (steadyAuthority 1200)
      enforcerWarned) ''child1'' 15 \<and>
   \<not> flagSet (resetWarningState ''child1'' enforcerWarned) ''child1'' 15"
proof -
  have h: "flagSet enforcerWarned ''child1'' 15"
    by (simp add: enforcerWarned_eval flagSet_def flagged_def)
  show ?thesis
    using h warning_flag_sticky [OF h, of "''agent1''" "''child1''" "''internet''" 10000
        "steadyAuthority 1200"]
    by simp
qed

section \<open>Properties of the usage tracker and of stopping\<close>

lemma logUsage_frame:
  "activeSessions (logUsageToAllow2 cid n auth t) = activeSessions t \<and>
   logIntervals (logUsageToAllow2 cid n auth t) = logIntervals t \<and>
   t_has_client (logUsageToAllow2 cid n auth t) = t_has_client t \<and>
   children (logUsageToAllow2 cid n auth t) = children t \<and>
   resetCheckInterval (logUsageToAllow2 cid n auth t) = resetCheckInterval t"
  by (simp add: logUsageToAllow2_def emitT_def Let_def split: reply.splits)

lemma logUsage_calls:
  "t_calls (logUsageToAllow2 cid n auth t) =
     t_calls t @ (if t_has_client t then [usageCall cid n] else [])"
  by (simp add: logUsageToAllow2_def emitT_def Let_def split: reply.splits)

lemma updateChildUsage_frame:
  "activeSessions (updateChildUsage cid n now t) = activeSessions t \<and>
   logIntervals (updateChildUsage cid n now t) = logIntervals t \<and>
   t_has_client (updateChildUsage cid n now t) = t_has_client t \<and>
   t_calls (updateChildUsage cid n now t) = t_calls t"
  by (simp add: updateChildUsage_def emitT_def Let_def)

lemma loggingTick_idle:
  "map_of (activeSessions t) agentId = Some sess \<Longrightarrow> accumulatedSeconds sess = 0 \<Longrightarrow>
   loggingTick agentId auth t = t"
  by (simp add: loggingTick_def split: option.splits)

lemma tracker2_eval:
  "tracker2 =
     \<lparr>t_has_client = True,
      activeSessions = [(''agent1'', \<lparr>childId = ''child1'', startTime = 0, lastUpdate = 120000,
         browsers = [''chrome''], accumulatedSeconds = 120, logged = False\<rparr>)],
      logIntervals = [(''agent1'', ''child1'')],
      resetCheckInterval = True,
      children = [''child1'' \<mapsto> \<lparr>usageToday = 120, lastReset = 120000\<rparr>],
      t_emitted = [SessionStarted ''agent1'' ''child1'' [''chrome''] 0,
                   UsageRecorded ''child1'' 120 120],
      t_calls = []\<rparr>"
  by (simp add: tracker2_def recordActivity_def newTracker_def startLoggingInterval_def
      stopLoggingInterval_def emitT_def updateChildUsage_def Let_def)

lemma trackerNoClient_eval:
  "trackerNoClient =
     \<lparr>t_has_client = False,
      activeSessions = [(''agent1'', \<lparr>childId = ''child1'', startTime = 0, lastUpdate = 120000,
         browsers = [''chrome''], accumulatedSeconds = 120, logged = False\<rparr>)],
      logIntervals = [(''agent1'', ''child1'')],
      resetCheckInterval = True,
      children = [''child1'' \<mapsto> \<lparr>usageToday = 120, lastReset = 120000\<rparr>],
      t_emitted = [SessionStarted ''agent1'' ''child1'' [''chrome''] 0,
                   UsageRecorded ''child1'' 120 120],
      t_calls = []\<rparr>"
  by (simp add: trackerNoClient_def recordActivity_def newTracker_def startLoggingInterval_def
      stopLoggingInterval_def emitT_def updateChildUsage_def Let_def)

lemma loggingTick_repeat_idle:
  assumes "map_of (activeSessions t) agentId = Some sess" and "accumulatedSeconds sess = 0"
  shows "fold (loggingTick agentId) auths t = t"
  by (induction auths) (simp_all add: loggingTick_idle [OF assms])

subsection \<open>C5: the periodic flush\<close>

text \<open>
  C5, as the claim states it, fails when the tracker was built without a client: the
  timer callback for a session holding 120 accumulated seconds sends nothing to the
  authority and still leaves the accumulator at zero.
\<close>

theorem flush_without_client_sends_nothing:
  "map (accumulatedSeconds \<circ> snd) (activeSessions trackerNoClient) = [120] \<and>
   map_of (logIntervals trackerNoClient) ''agent1'' = Some ''child1'' \<and>
   t_calls (loggingTick ''agent1'' okAuthority trackerNoClient) = [] \<and>
   map (accumulatedSeconds \<circ> snd)
     (activeSessions (loggingTick ''agent1'' okAuthority trackerNoClient)) = [0]"
  by (simp add: trackerNoClient_eval loggingTick_def logUsageToAllow2_def Let_def)

text \<open>
  C5, amended: a firing of the logging timer for a session with accumulated seconds
  greater than zero sets the accumulator to zero and, when a client is configured,
  sends exactly the accumulated amount to the authority in one usage call with
  \<open>log_usage = True\<close>, whether that call returns or throws; without a client nothing
  is sent. The seconds are not sent again by the timer: every later firing with no
  \<^verbatim>\<open>recordActivity\<close> in between changes nothing and sends nothing.
\<close>

theorem periodic_flush_once:
  assumes "map_of (logIntervals t) agentId = Some cid"
    and "map_of (activeSessions t) agentId = Some sess"
    and "0 < accumulatedSeconds sess"
  shows "let t' = loggingTick agentId auth t in
     t_calls t' = t_calls t @
       (if t_has_client t then [usageCall cid (accumulatedSeconds sess)] else []) \<and>
     duration_seconds (usageCall cid (accumulatedSeconds sess)) = Some (accumulatedSeconds sess) \<and>
     log_usage (usageCall cid (accumulatedSeconds sess)) \<and>
     activeSessions t' =
       AList.update agentId (sess\<lparr>accumulatedSeconds := 0, logged := True\<rparr>) (activeSessions t) \<and>
     map_of (activeSessions t') agentId = Some (sess\<lparr>accumulatedSeconds := 0, logged := True\<rparr>) \<and>
     (\<forall>auths. fold (loggingTick agentId) auths t' = t')"
proof -
  let ?s0 = "sess\<lparr>accumulatedSeconds := 0, logged := True\<rparr>"
  let ?t1 = "t\<lparr>activeSessions := AList.update agentId ?s0 (activeSessions t)\<rparr>"
  have tick: "loggingTick agentId auth t = logUsageToAllow2 cid (accumulatedSeconds sess) auth ?t1"
    using assms by (simp add: loggingTick_def Let_def)
  have al: "activeSessions (loggingTick agentId auth t) =
      AList.update agentId ?s0 (activeSessions t)"
    unfolding tick by (simp add: logUsage_frame)
  have sess': "map_of (activeSessions (loggingTick agentId auth t)) agentId = Some ?s0"
    unfolding al by (simp add: update_conv')
  have calls: "t_calls (loggingTick agentId auth t) = t_calls t @
      (if t_has_client t then [usageCall cid (accumulatedSeconds sess)] else [])"
    unfolding tick by (simp add: logUsage_calls)
  have idle: "fold (loggingTick agentId) auths (loggingTick agentId auth t) =
      loggingTick agentId auth t" for auths
    by (rule loggingTick_repeat_idle [OF sess']) simp
  show ?thesis
    unfolding Let_def using al sess' calls idle by (simp add: usageCall_def)
qed

theorem periodic_flush_once_witness:
  "map_of (logIntervals tracker2) ''agent1'' = Some ''child1'' \<and>
   t_calls (loggingTick ''agent1'' failingAuthority tracker2) = [usageCall ''child1'' 120] \<and>
   fold (loggingTick ''agent1'') [okAuthority, failingAuthority]
     (loggingTick ''agent1'' failingAuthority tracker2) =
     loggingTick ''agent1'' failingAuthority tracker2"
proof -
  let ?sess = "\<lparr>childId = ''child1'', startTime = 0, lastUpdate = 120000,
         browsers = [''chrome''], accumulatedSeconds = 120, logged = False\<rparr>"
  have h1: "map_of (logIntervals tracker2) ''agent1'' = Some ''child1''"
    by (simp add: tracker2_eval)
  have h2: "map_of (activeSessions tracker2) ''agent1'' = Some ?sess"
    by (simp add: tracker2_eval)
  have h3: "0 < accumulatedSeconds ?sess" by simp
  have c: "t_has_client tracker2" "t_calls tracker2 = []" by (simp_all add: tracker2_eval)
  from periodic_flush_once [OF h1 h2 h3, of failingAuthority]
  have "t_calls (loggingTick ''agent1'' failingAuthority tracker2) = [usageCall ''child1'' 120]"
    and "fold (loggingTick ''agent1'') [okAuthority, failingAuthority]
           (loggingTick ''agent1'' failingAuthority tracker2) =
         loggingTick ''agent1'' failingAuthority tracker2"
    using c unfolding Let_def by (simp, blast)
  with h1 show ?thesis by simp
qed

lemma update_keys_present:
  "k \<in> fst ` set al \<Longrightarrow> map fst (AList.update k v al) = map fst al"
  by (induction al) auto

lemma recordActivity_sessions:
  "activeSessions (recordActivity agentId cid brs now t) =
     (case map_of (activeSessions t) agentId of
        Some existing \<Rightarrow>
          AList.update agentId
            (existing\<lparr>lastUpdate := now, browsers := brs,
               accumulatedSeconds := accumulatedSeconds existing + (now - lastUpdate existing) div 1000\<rparr>)
            (activeSessions t)
      | None \<Rightarrow>
          AList.update agentId
            \<lparr>childId = cid, startTime = now, lastUpdate = now, browsers = brs,
             accumulatedSeconds = 0, logged = False\<rparr> (activeSessions t))"
  by (simp add: recordActivity_def Let_def updateChildUsage_frame startLoggingInterval_def
      stopLoggingInterval_def emitT_def split: option.splits)

lemma endSession_sessions:
  "activeSessions (endSession agentId cid now auth t) =
     (case map_of (activeSessions t) agentId of
        None \<Rightarrow> activeSessions t
      | Some sess \<Rightarrow> AList.delete agentId (activeSessions t))"
  by (simp add: endSession_def Let_def updateChildUsage_frame logUsage_frame
      stopLoggingInterval_def emitT_def split: option.splits)

lemma loggingTick_sessions:
  "activeSessions (loggingTick agentId auth t) = activeSessions t \<or>
   (\<exists>v. activeSessions (loggingTick agentId auth t) = AList.update agentId v (activeSessions t))"
  by (auto simp: loggingTick_def Let_def logUsage_frame split: option.splits)

lemma checkAllowance_sessions:
  "activeSessions (snd (checkAllowance cid auth t)) = activeSessions t"
  by (simp add: checkAllowance_def Let_def split: reply.splits)

lemma reachableT_distinct:
  "reachableT t \<Longrightarrow> distinct (map fst (activeSessions t))"
proof (induction rule: reachableT.induct)
  case (rt_new client ch)
  show ?case by (simp add: newTracker_def)
next
  case (rt_record t agentId cid brs now)
  then show ?case
    by (simp add: recordActivity_sessions distinct_update split: option.splits)
next
  case (rt_end t agentId cid now auth)
  then show ?case
    by (simp add: endSession_sessions distinct_delete split: option.splits)
next
  case (rt_end_all t agentId now auth)
  then show ?case
    by (simp add: endAllSessions_def endSession_sessions distinct_delete split: option.splits)
next
  case (rt_tick t agentId auth)
  then show ?case
    using loggingTick_sessions [of agentId auth t] by (auto simp: distinct_update)
next
  case (rt_check t cid auth)
  then show ?case by (simp add: checkAllowance_sessions)
next
  case (rt_cleanup t)
  show ?case by (simp add: trackerCleanup_def Let_def)
qed

lemma getChildSessions_agents:
  "map v_agentId (getChildSessions cid now al) =
     map fst (filter (\<lambda>p. childId (snd p) = cid) al)"
  by (induction al) auto

lemma openAgents_distinct:
  assumes "distinct (map fst al)"
  shows "fst ` {p \<in> set al. childId (snd p) = cid} =
         {a. \<exists>sess. map_of al a = Some sess \<and> childId sess = cid}"
  using assms by (force simp: image_iff)

subsection \<open>C6: one open session per agent\<close>

text \<open>
  C6: in every state the tracker can reach, the session map holds at most one entry per
  agent. \<^verbatim>\<open>recordActivity\<close> for an agent that has a session keeps the same entries
  and updates that session (elapsed whole seconds are added to the accumulator), and
  \<^verbatim>\<open>getChildSessions\<close> returns exactly one view for each agent whose open session
  belongs to the child.
\<close>

theorem session_exclusivity:
  assumes "reachableT t"
  shows "distinct (map fst (activeSessions t)) \<and>
    (\<forall>sess. map_of (activeSessions t) agentId = Some sess \<longrightarrow>
       map fst (activeSessions (recordActivity agentId cid brs now t)) =
         map fst (activeSessions t) \<and>
       map_of (activeSessions (recordActivity agentId cid brs now t)) agentId =
         Some (sess\<lparr>lastUpdate := now, browsers := brs,
                 accumulatedSeconds := accumulatedSeconds sess + (now - lastUpdate sess) div 1000\<rparr>)) \<and>
    distinct (map v_agentId (getChildSessions c now' (activeSessions t))) \<and>
    set (map v_agentId (getChildSessions c now' (activeSessions t))) = openAgents t c"
proof -
  have d: "distinct (map fst (activeSessions t))"
    by (rule reachableT_distinct [OF assms])
  have upd: "map fst (activeSessions (recordActivity agentId cid brs now t)) =
         map fst (activeSessions t) \<and>
       map_of (activeSessions (recordActivity agentId cid brs now t)) agentId =
         Some (sess\<lparr>lastUpdate := now, browsers := brs,
                 accumulatedSeconds := accumulatedSeconds sess + (now - lastUpdate sess) div 1000\<rparr>)"
    if "map_of (activeSessions t) agentId = Some sess" for sess
  proof -
    from that have "agentId \<in> fst ` set (activeSessions t)"
      by (metis map_of_eq_None_iff option.distinct(1))
    with that show ?thesis
      by (simp add: recordActivity_sessions update_keys_present update_conv')
  qed
  have v1: "distinct (map v_agentId (getChildSessions c now' (activeSessions t)))"
    using d by (simp add: getChildSessions_agents distinct_map_filter)
  have v2: "set (map v_agentId (getChildSessions c now' (activeSessions t))) = openAgents t c"
    using openAgents_distinct [OF d, of c]
    by (simp add: getChildSessions_agents openAgents_def)
  show ?thesis using d upd v1 v2 by blast
qed

theorem session_exclusivity_witness:
  "reachableT tracker2 \<and>
   map fst (activeSessions (recordActivity ''agent1'' ''child1'' [''chrome''] 180000 tracker2)) =
     [''agent1''] \<and>
   map v_agentId (getChildSessions ''child1'' 180000 (activeSessions tracker2)) = [''agent1'']"
proof -
  have r: "reachableT tracker2"
    unfolding tracker2_def by (intro reachableT.intros)
  let ?sess = "\<lparr>childId = ''child1'', startTime = 0, lastUpdate = 120000,
         browsers = [''chrome''], accumulatedSeconds = 120, logged = False\<rparr>"
  have h2: "map_of (activeSessions tracker2) ''agent1'' = Some ?sess"
    by (simp add: tracker2_eval)
  have k: "map fst (activeSessions tracker2) = [''agent1'']"
    by (simp add: tracker2_eval)
  have g: "map v_agentId (getChildSessions ''child1'' 180000 (activeSessions tracker2)) = [''agent1'']"
    by (simp add: tracker2_eval)
  show ?thesis
    using r h2 k g
      session_exclusivity [OF r, of "''agent1''" "''child1''" "[''chrome'']" 180000 "''child1''" 180000]
    by simp
qed

lemma emitStopped_eq:
  "emitStopped now bs d =
     d\<lparr>d_emitted := d_emitted d @
          map (\<lambda>(pid, info). BrowserStopped info (now - b_startTime info)) bs\<rparr>"
  by (induction bs arbitrary: d) auto

lemma stopAll_eq:
  "stopAll ks t = t\<lparr>logIntervals := filter (\<lambda>p. fst p \<notin> set ks) (logIntervals t)\<rparr>"
proof (induction ks arbitrary: t)
  case Nil
  show ?case by simp
next
  case (Cons k ks)
  have "filter (\<lambda>p. fst p \<notin> set ks) (AList.delete k al) =
        filter (\<lambda>p. fst p \<noteq> k \<and> fst p \<notin> set ks) al" for al :: "(string \<times> string) list"
    by (induction al) auto
  then show ?case
    by (simp add: Cons.IH stopLoggingInterval_def)
qed

subsection \<open>C9: stopping\<close>

text \<open>
  C9, as the claim states it, fails for the tracker: \<^verbatim>\<open>cleanup\<close> on a tracker with an
  open session holding 120 unflushed seconds sends nothing to the authority and emits
  no session-ended event; the session is dropped.
\<close>

theorem cleanup_drops_open_session:
  "map (accumulatedSeconds \<circ> snd) (activeSessions tracker2) = [120] \<and>
   t_calls (trackerCleanup tracker2) = [] \<and>
   t_emitted (trackerCleanup tracker2) =
     [SessionStarted ''agent1'' ''child1'' [''chrome''] 0, UsageRecorded ''child1'' 120 120] \<and>
   activeSessions (trackerCleanup tracker2) = []"
  by (simp add: tracker2_eval trackerCleanup_def stopLoggingInterval_def Let_def)

text \<open>
  C9, amended: \<^verbatim>\<open>ProcessLevelDetector.stop\<close> on a running detector clears the scan
  timer, emits browser-stopped with duration \<open>now - startTime\<close> for every active
  browser, in map order, and empties the active set.
  \<^verbatim>\<open>BrowserTimeTracker.cleanup\<close> clears the logging timers, the daily-reset timer and
  the session map; it makes no authority call and emits no event.
\<close>

theorem stop_and_cleanup:
  "(isRunning d \<longrightarrow>
      d_emitted (detectorStop now d) =
        d_emitted d @ map (\<lambda>(pid, info). BrowserStopped info (now - b_startTime info))
                        (activeBrowsers d) \<and>
      activeBrowsers (detectorStop now d) = [] \<and>
      \<not> isRunning (detectorStop now d) \<and> \<not> scanInterval (detectorStop now d)) \<and>
   logIntervals (trackerCleanup t) = [] \<and> \<not> resetCheckInterval (trackerCleanup t) \<and>
   activeSessions (trackerCleanup t) = [] \<and>
   t_calls (trackerCleanup t) = t_calls t \<and> t_emitted (trackerCleanup t) = t_emitted t"
proof -
  have "filter (\<lambda>p. fst p \<notin> fst ` set al) al = []" for al :: "(string \<times> string) list"
    by (induction al) auto
  then show ?thesis
    by (simp add: detectorStop_def emitStopped_eq trackerCleanup_def stopAll_eq Let_def)
qed

theorem stop_and_cleanup_witness:
  "isRunning detector1 \<and>
   d_emitted (detectorStop 61000 detector1) = [BrowserStopped chromeInfo 60000] \<and>
   activeBrowsers (detectorStop 61000 detector1) = []"
proof -
  have h: "isRunning detector1" by (simp add: detector1_def)
  have s: "b_startTime chromeInfo = 1000" by (simp add: chromeInfo_def)
  show ?thesis
    using h s stop_and_cleanup [of detector1 61000]
    by (simp add: detector1_def)
qed

lemma fetchAllowance_calls:
  "calls (snd (fetchAllowance c ty now auth s)) = calls s \<or>
   calls (snd (fetchAllowance c ty now auth s)) = calls s @ [allowanceCall c ty]"
  by (auto simp: fetchAllowance_def Let_def split: option.splits reply.splits)

lemma checkWarnings_calls: "calls (checkWarnings ag c ty n s) = calls s"
  by (simp add: checkWarnings_find Let_def split: option.splits)

lemma decide_calls: "calls (decide ag c ty a s) = calls s"
  by (simp add: decide_def emit_def checkWarnings_calls)

lemma checkQuota_calls:
  "calls (checkQuota ag c ty now auth s) = calls s \<or>
   calls (checkQuota ag c ty now auth s) = calls s @ [allowanceCall c ty]"
  using fetchAllowance_calls [of c ty now auth s]
  by (cases "fetchAllowance c ty now auth s")
     (auto simp: checkQuota_def decide_calls split: option.splits)

lemma checkAllowance_calls:
  "t_calls (snd (checkAllowance cid auth t)) = t_calls t \<or>
   t_calls (snd (checkAllowance cid auth t)) = t_calls t @ [allowanceCall cid ''internet'']"
  by (simp add: checkAllowance_def allowanceCall_def Let_def split: reply.splits)

lemma recordActivity_calls: "t_calls (recordActivity a cid brs now t) = t_calls t"
  by (simp add: recordActivity_def Let_def updateChildUsage_frame startLoggingInterval_def
      stopLoggingInterval_def emitT_def split: option.splits)

lemma loggingTick_calls:
  "\<exists>cs. t_calls (loggingTick a auth t) = t_calls t @ cs \<and> (\<forall>x \<in> set cs. log_usage x)"
  by (auto simp: loggingTick_def Let_def logUsage_calls usageCall_def split: option.splits)

lemma endSession_calls:
  "\<exists>cs. t_calls (endSession a cid now auth t) = t_calls t @ cs \<and> (\<forall>x \<in> set cs. log_usage x)"
  by (auto simp: endSession_def Let_def logUsage_calls usageCall_def emitT_def
      stopLoggingInterval_def updateChildUsage_frame split: option.splits)

subsection \<open>C10: checks never consume quota\<close>

text \<open>
  C10: every request \<^verbatim>\<open>checkQuota\<close> (through \<^verbatim>\<open>fetchAllowance\<close>) or
  \<^verbatim>\<open>checkAllowance\<close> sends has \<open>log_usage = False\<close> and \<open>check_only = True\<close>;
  \<^verbatim>\<open>recordActivity\<close> sends nothing; every request sent by
  \<^verbatim>\<open>logUsageToAllow2\<close>, and so by the logging timer and by \<^verbatim>\<open>endSession\<close>, has
  \<open>log_usage = True\<close>.
\<close>

theorem checks_never_consume_quota:
  "(\<forall>x \<in> set (drop (length (calls s)) (calls (checkQuota ag c ty now auth s))).
      \<not> log_usage x \<and> check_only x = Some True) \<and>
   (\<forall>x \<in> set (drop (length (t_calls t)) (t_calls (snd (checkAllowance cid auth t)))).
      \<not> log_usage x \<and> check_only x = Some True) \<and>
   t_calls (recordActivity a cid brs now t) = t_calls t \<and>
   (\<forall>x \<in> set (drop (length (t_calls t)) (t_calls (logUsageToAllow2 cid n auth t))). log_usage x) \<and>
   (\<forall>x \<in> set (drop (length (t_calls t)) (t_calls (loggingTick a auth t))). log_usage x) \<and>
   (\<forall>x \<in> set (drop (length (t_calls t)) (t_calls (endSession a cid now auth t))). log_usage x)"
proof -
  have 1: "\<forall>x \<in> set (drop (length (calls s)) (calls (checkQuota ag c ty now auth s))).
      \<not> log_usage x \<and> check_only x = Some True"
    using checkQuota_calls [of ag c ty now auth s] by (auto simp: allowanceCall_def)
  have 2: "\<forall>x \<in> set (drop (length (t_calls t)) (t_calls (snd (checkAllowance cid auth t)))).
      \<not> log_usage x \<and> check_only x = Some True"
    using checkAllowance_calls [of cid auth t] by (auto simp: allowanceCall_def)
  have 4: "\<forall>x \<in> set (drop (length (t_calls t)) (t_calls (logUsageToAllow2 cid n auth t))). log_usage x"
    by (simp add: logUsage_calls usageCall_def)
  have 5: "\<forall>x \<in> set (drop (length (t_calls t)) (t_calls (loggingTick a auth t))). log_usage x"
    using loggingTick_calls [of a auth t] by auto
  have 6: "\<forall>x \<in> set (drop (length (t_calls t)) (t_calls (endSession a cid now auth t))). log_usage x"
    using endSession_calls [of a cid now auth t] by auto
  show ?thesis using 1 2 4 5 6 recordActivity_calls by blast
qed

theorem checks_never_consume_quota_witness:
  "calls (checkQuota ''agent1'' ''child1'' ''internet'' 0 (steadyAuthority 600) enforcer0) =
     [allowanceCall ''child1'' ''internet''] \<and>
   \<not> log_usage (allowanceCall ''child1'' ''internet'') \<and>
   check_only (allowanceCall ''child1'' ''internet'') = Some True \<and>
   t_calls (loggingTick ''agent1'' okAuthority tracker2) = [usageCall ''child1'' 120] \<and>
   log_usage (usageCall ''child1'' 120)"
proof -
  have e: "calls (checkQuota ''agent1'' ''child1'' ''internet'' 0 (steadyAuthority 600) enforcer0) =
     [allowanceCall ''child1'' ''internet'']"
    unfolding enforcerWarned_def [symmetric] by (simp add: enforcerWarned_eval)
  have e0: "calls enforcer0 = []" by (simp add: enforcer0_def newEnforcer_def)
  have f: "t_calls (loggingTick ''agent1'' okAuthority tracker2) = [usageCall ''child1'' 120]"
    by (simp add: tracker2_eval loggingTick_def logUsage_calls Let_def)
  have f0: "t_calls tracker2 = []" by (simp add: tracker2_eval)
  show ?thesis
    using e e0 f f0
      checks_never_consume_quota [where s = enforcer0 and ag = "''agent1''"
        and c = "''child1''" and ty = "''internet''" and now = 0
        and auth = "steadyAuthority 600"]
      checks_never_consume_quota [where t = tracker2 and a = "''agent1''" and auth = okAuthority]
    by simp
qed

section \<open>Properties of the classifier\<close>

lemma splitOn_nonempty: "splitOn c s \<noteq> []"
  by (induction s) (auto split: list.splits)

lemma joinWith_Cons: "ws \<noteq> [] \<Longrightarrow> joinWith c (w # ws) = w @ c # joinWith c ws"
  by (cases ws) auto

lemma joinWith_splitOn: "joinWith c (splitOn c s) = s"
proof (induction s)
  case Nil
  show ?case by simp
next
  case (Cons x xs)
  obtain w ws where sp: "splitOn c xs = w # ws"
    using splitOn_nonempty [of c xs] by (cases "splitOn c xs") auto
  show ?case
  proof (cases "x = c")
    case True
    then show ?thesis using Cons.IH splitOn_nonempty [of c xs] by (simp add: joinWith_Cons)
  next
    case False
    then show ?thesis using Cons.IH sp by (cases ws) auto
  qed
qed

lemma length_splitOn: "length (splitOn c s) = Suc (length (filter (\<lambda>x. x = c) s))"
  by (induction s) (auto split: list.splits simp: splitOn_nonempty)

lemma join_tl_splitOn:
  "joinWith c (tl (splitOn c s)) = tl (dropWhile (\<lambda>x. x \<noteq> c) s)"
proof (induction s)
  case Nil
  show ?case by simp
next
  case (Cons x xs)
  show ?case
  proof (cases "x = c")
    case True
    then show ?thesis by (simp add: joinWith_splitOn)
  next
    case False
    obtain w ws where sp: "splitOn c xs = w # ws"
      using splitOn_nonempty [of c xs] by (cases "splitOn c xs") auto
    with False Cons.IH show ?thesis by simp
  qed
qed

lemma getParentDomain_eq:
  "getParentDomain d =
     (if 2 \<le> length (filter (\<lambda>x. x = CHR ''.'') d)
      then Some (tl (dropWhile (\<lambda>x. x \<noteq> CHR ''.'') d)) else None)"
  by (auto simp: getParentDomain_def Let_def length_splitOn join_tl_splitOn)

lemma parent_nonempty: "getParentDomain d = Some p \<Longrightarrow> p \<noteq> []"
proof -
  assume a: "getParentDomain d = Some p"
  then obtain w1 w2 ws where "tl (splitOn CHR ''.'' d) = w1 # w2 # ws"
    by (cases "splitOn CHR ''.'' d"; cases "tl (splitOn CHR ''.'' d)";
        cases "tl (tl (splitOn CHR ''.'' d))")
       (auto simp: getParentDomain_def Let_def split: if_splits)
  with a show ?thesis
    by (auto simp: getParentDomain_def Let_def split: if_splits)
qed

lemma parent_has_dot: "getParentDomain d = Some p \<Longrightarrow> CHR ''.'' \<in> set p"
proof -
  assume a: "getParentDomain d = Some p"
  then obtain w1 w2 ws where "tl (splitOn CHR ''.'' d) = w1 # w2 # ws"
    by (cases "splitOn CHR ''.'' d"; cases "tl (splitOn CHR ''.'' d)";
        cases "tl (tl (splitOn CHR ''.'' d))")
       (auto simp: getParentDomain_def Let_def split: if_splits)
  with a show ?thesis
    by (auto simp: getParentDomain_def Let_def split: if_splits)
qed

text \<open>A name with a dot is not a property of the prototype.\<close>

lemma getProperty_dotted:
  assumes "CHR ''.'' \<in> set key"
  shows "getProperty own key = (case own key of None \<Rightarrow> Absent | Some v \<Rightarrow> Own v)"
proof -
  have "key \<notin> set objectPrototypeNames" and "key \<noteq> ''__proto__''"
    using assms by (auto simp: objectPrototypeNames_def)
  then show ?thesis by (simp add: getProperty_def)
qed

lemma extractDomain_nonempty_input:
  "extractDomain url x = Some d \<Longrightarrow> d \<noteq> [] \<Longrightarrow> x \<noteq> []"
  by (auto simp: extractDomain_def Let_def trim_def toLowerCase_def firstPart_def)

lemma classify_uncached:
  assumes "extractDomain url x = Some d" and "d \<noteq> []" and "map_of (cache c) d = None"
  shows "classified url x c = resolve c d"
  using assms extractDomain_nonempty_input [OF assms(1,2)]
  by (simp add: classified_def classify_def resolve_def Let_def split: option.splits sum.splits)

lemma classify_cached:
  assumes "extractDomain url x = Some d" and "d \<noteq> []" and "map_of (cache c) d = Some r"
  shows "classified url x c = Inr r"
  using assms extractDomain_nonempty_input [OF assms(1,2)]
  by (simp add: classified_def classify_def)

subsection \<open>Concrete lookups\<close>

lemma extract_plain:
  "extractDomain noUrl ''sub.sub.youtube.com'' = Some ''sub.sub.youtube.com''"
  "extractDomain noUrl ''sub.youtube.com'' = Some ''sub.youtube.com''"
  "extractDomain noUrl ''youtube.com'' = Some ''youtube.com''"
  "extractDomain noUrl ''constructor'' = Some ''constructor''"
  by (simp_all add: extractDomain_def Let_def trim_def toLowerCase_def toLowerChar_def
      upperChars_def lowerChars_def isSpace_def firstPart_def)

lemma youtube_table:
  "domainCategoryMap (newClassifier youtubeOnly) = [''youtube.com'' \<mapsto> ''video'']"
  by (simp add: newClassifier_def getDomainCategoryMap_def youtubeOnly_def)

lemma youtube_lookups:
  "matchDomain (newClassifier youtubeOnly) ''sub.sub.youtube.com'' = Inr None"
  "matchDomain (newClassifier youtubeOnly) ''sub.youtube.com'' = Inr None"
  "matchDomain (newClassifier youtubeOnly) ''constructor'' = Inl TypeError"
  by (simp_all add: matchDomain_def getProperty_def youtube_table objectPrototypeNames_def)

lemma parents_eval:
  "getParentDomain ''sub.sub.youtube.com'' = Some ''sub.youtube.com''"
  "getParentDomain ''sub.youtube.com'' = Some ''youtube.com''"
  by (simp_all add: getParentDomain_eq)

lemma pattern_miss: "matchPattern pats ''sub.sub.youtube.com'' = None"
  by (simp add: matchPattern_def endsWith_def)

lemma other_result:
  "createResult youtubeOnly ''other'' 0 =
     \<lparr>r_category = ''other'', r_displayName = Some ''Other'', r_icon = Some ''web'',
      r_confidence = 0, r_isRestricted = False\<rparr>"
  by (simp add: createResult_def getCategoryInfo_def getProperty_def youtubeOnly_def
      objectPrototypeNames_def capitalize_def toUpperChar_def upperChars_def lowerChars_def
      isRestricted_def)

text \<open>
  A domain that names a property of the prototype, with no custom rule and no cache
  entry, makes \<^verbatim>\<open>classify\<close> throw.
\<close>

lemma inherited_name_throws:
  "classified noUrl ''constructor'' (newClassifier youtubeOnly) = Inl TypeError"
proof -
  have c0: "map_of (cache (newClassifier youtubeOnly)) ''constructor'' = None"
    "customRules (newClassifier youtubeOnly) ''constructor'' = None"
    by (simp_all add: newClassifier_def)
  have "classified noUrl ''constructor'' (newClassifier youtubeOnly) =
        resolve (newClassifier youtubeOnly) ''constructor''"
    by (rule classify_uncached [OF extract_plain(4) _ c0(1)]) simp
  also have "\<dots> = Inl TypeError"
    by (simp add: resolve_def c0 staticResult_def youtube_lookups)
  finally show ?thesis .
qed

subsection \<open>C7: the parent-domain lookup\<close>

text \<open>
  C7, as the claim states it, fails in its example: with only youtube.com in the static
  table, sub.sub.youtube.com has the parent sub.youtube.com, which the table does not
  hold; no further label is stripped and the result is category other, confidence 0.
\<close>

theorem classify_sub_sub_youtube:
  "getParentDomain ''sub.sub.youtube.com'' = Some ''sub.youtube.com'' \<and>
   classified noUrl ''sub.sub.youtube.com'' (newClassifier youtubeOnly) =
     Inr \<lparr>r_category = ''other'', r_displayName = Some ''Other'', r_icon = Some ''web'',
          r_confidence = 0, r_isRestricted = False\<rparr>"
proof -
  have c0: "map_of (cache (newClassifier youtubeOnly)) ''sub.sub.youtube.com'' = None"
    "customRules (newClassifier youtubeOnly) ''sub.sub.youtube.com'' = None"
    "cl_patterns (newClassifier youtubeOnly) = youtubeOnly"
    by (simp_all add: newClassifier_def)
  have "classified noUrl ''sub.sub.youtube.com'' (newClassifier youtubeOnly) =
        resolve (newClassifier youtubeOnly) ''sub.sub.youtube.com''"
    by (rule classify_uncached [OF extract_plain(1) _ c0(1)]) simp
  also have "\<dots> = Inr (createResult youtubeOnly ''other'' 0)"
    by (simp add: resolve_def c0 staticResult_def youtube_lookups parents_eval
        pattern_miss Let_def)
  finally show ?thesis
    by (simp add: parents_eval other_result)
qed

text \<open>
  C7, amended: when the normalised domain has no cache entry, no custom rule and no
  exact static-table match, \<^verbatim>\<open>classify\<close> strips the leftmost label exactly once,
  provided the domain has at least three labels (the parent is everything after the
  first dot), and repeats the static-table lookup against that parent, with confidence
  1.0 on a match. When the parent misses, no further ancestor is tried: the result
  comes from the heuristics or is \<^verbatim>\<open>other\<close>. So sub.youtube.com matches
  youtube.com, and sub.sub.youtube.com does not.
\<close>

theorem parent_domain_lookup:
  assumes "extractDomain url x = Some d" and "d \<noteq> []" and "map_of (cache c) d = None"
    and "customRules c d = None" and "matchDomain c d = Inr None"
  shows "getParentDomain d =
       (if 2 \<le> length (filter (\<lambda>ch. ch = CHR ''.'') d)
        then Some (tl (dropWhile (\<lambda>ch. ch \<noteq> CHR ''.'') d)) else None) \<and>
     (\<forall>p cat. getParentDomain d = Some p \<and> domainCategoryMap c p = Some cat \<and> cat \<noteq> [] \<longrightarrow>
        (\<exists>r. classified url x c = Inr r \<and> r_category r = cat \<and> r_confidence r = 1)) \<and>
     (\<forall>p. getParentDomain d = Some p \<and> matchDomain c p = Inr None \<longrightarrow>
        classified url x c =
          Inr (case matchPattern (cl_patterns c) d of
                 Some r \<Rightarrow> r
               | None \<Rightarrow> createResult (cl_patterns c) ''other'' 0))"
proof -
  have r: "classified url x c = staticResult c d"
    using classify_uncached [OF assms(1,2,3)] assms(4) by (simp add: resolve_def)
  have hit: "\<exists>r. classified url x c = Inr r \<and> r_category r = cat \<and> r_confidence r = 1"
    if "getParentDomain d = Some p" "domainCategoryMap c p = Some cat" "cat \<noteq> []" for p cat
  proof -
    have "matchDomain c p = Inr (Some (createResult (cl_patterns c) cat 1))"
      using that by (simp add: matchDomain_def getProperty_dotted [OF parent_has_dot [OF that(1)]])
    then have "classified url x c = Inr (createResult (cl_patterns c) cat 1)"
      unfolding r using that(1) assms(5) parent_nonempty [OF that(1)]
      by (simp add: staticResult_def Let_def)
    then show ?thesis by (simp add: createResult_def)
  qed
  have miss: "classified url x c =
          Inr (case matchPattern (cl_patterns c) d of
                 Some r \<Rightarrow> r
               | None \<Rightarrow> createResult (cl_patterns c) ''other'' 0)"
    if "getParentDomain d = Some p" "matchDomain c p = Inr None" for p
    unfolding r using that assms(5) by (simp add: staticResult_def Let_def)
  show ?thesis using getParentDomain_eq [of d] hit miss by blast
qed

theorem parent_domain_lookup_witness:
  "extractDomain noUrl ''sub.youtube.com'' = Some ''sub.youtube.com'' \<and>
   matchDomain (newClassifier youtubeOnly) ''sub.youtube.com'' = Inr None \<and>
   getParentDomain ''sub.youtube.com'' = Some ''youtube.com'' \<and>
   (\<exists>r. classified noUrl ''sub.youtube.com'' (newClassifier youtubeOnly) = Inr r \<and>
        r_category r = ''video'' \<and> r_confidence r = 1)"
proof -
  have h2: "''sub.youtube.com'' \<noteq> []" by simp
  have h3: "map_of (cache (newClassifier youtubeOnly)) ''sub.youtube.com'' = None"
    and h4: "customRules (newClassifier youtubeOnly) ''sub.youtube.com'' = None"
    by (simp_all add: newClassifier_def)
  have t: "domainCategoryMap (newClassifier youtubeOnly) ''youtube.com'' = Some ''video''"
    by (simp add: youtube_table)
  have w: "''video'' \<noteq> []" by simp
  from parent_domain_lookup [OF extract_plain(2) h2 h3 h4 youtube_lookups(2)]
  have "\<exists>r. classified noUrl ''sub.youtube.com'' (newClassifier youtubeOnly) = Inr r \<and>
        r_category r = ''video'' \<and> r_confidence r = 1"
    using parents_eval(2) t w by blast
  then show ?thesis
    using extract_plain(2) youtube_lookups(2) parents_eval(2) by simp
qed

subsection \<open>The cache holds only current results\<close>

lemma map_of_fold_delete:
  "map_of (fold AList.delete ks al) k = (if k \<in> set ks then None else map_of al k)"
  by (induction ks arbitrary: al) (auto simp: delete_conv')

lemma matchDomain_cong:
  assumes "cl_patterns c' = cl_patterns c" and "domainCategoryMap c' = domainCategoryMap c"
  shows "matchDomain c' = matchDomain c"
  unfolding matchDomain_def assms by (rule refl)

lemma staticResult_cong:
  assumes "cl_patterns c' = cl_patterns c" and "domainCategoryMap c' = domainCategoryMap c"
  shows "staticResult c' d = staticResult c d"
  unfolding staticResult_def matchDomain_cong [OF assms] assms(1) by (rule refl)

lemma resolve_cong:
  assumes "cl_patterns c' = cl_patterns c" and "domainCategoryMap c' = domainCategoryMap c"
    and "customRules c' d = customRules c d"
  shows "resolve c' d = resolve c d"
  unfolding resolve_def staticResult_cong [OF assms(1,2)] assms(1,3) by (rule refl)

lemma addToCache_frame:
  "cl_patterns (addToCache d r c) = cl_patterns c \<and>
   domainCategoryMap (addToCache d r c) = domainCategoryMap c \<and>
   customRules (addToCache d r c) = customRules c"
  by (simp add: addToCache_def Let_def)

lemma addToCache_lookup:
  "map_of (cache (addToCache d r c)) k = Some v \<Longrightarrow>
     (k = d \<and> v = r) \<or> map_of (cache c) k = Some v"
  by (auto simp: addToCache_def Let_def update_conv' map_of_fold_delete split: if_splits)

lemma addToCache_ok:
  assumes "cacheOk c" and "resolve c d = Inr r"
  shows "cacheOk (addToCache d r c)"
  unfolding cacheOk_def
proof (intro allI impI)
  fix k v
  assume "map_of (cache (addToCache d r c)) k = Some v"
  from addToCache_lookup [OF this] assms
  have "resolve c k = Inr v" by (auto simp: cacheOk_def)
  moreover have "resolve (addToCache d r c) k = resolve c k"
    by (rule resolve_cong) (simp_all add: addToCache_frame)
  ultimately show "resolve (addToCache d r c) k = Inr v" by simp
qed

lemma classify_Inr:
  assumes "classify url x c = Inr (r, c')"
  shows "c' = c \<or>
    (\<exists>d. extractDomain url x = Some d \<and> resolve c d = Inr r \<and> c' = addToCache d r c)"
proof (cases "extractDomain url x")
  case None
  with assms show ?thesis by (simp add: classify_def split: if_splits)
next
  case (Some d)
  with assms show ?thesis
    by (auto simp: classify_def resolve_def Let_def split: if_splits option.splits sum.splits)
qed

lemma classifierAfter_cases:
  "classifierAfter url x c = c \<or>
   (\<exists>d r. resolve c d = Inr r \<and> classifierAfter url x c = addToCache d r c)"
proof (cases "classify url x c")
  case (Inl e)
  then show ?thesis by (simp add: classifierAfter_def)
next
  case (Inr p)
  obtain r c' where p: "p = (r, c')" by (cases p)
  from classify_Inr [OF Inr [unfolded p]] Inr p show ?thesis
    by (auto simp: classifierAfter_def)
qed

lemma classifierAfter_frame:
  "cl_patterns (classifierAfter url x c) = cl_patterns c \<and>
   domainCategoryMap (classifierAfter url x c) = domainCategoryMap c \<and>
   customRules (classifierAfter url x c) = customRules c"
  using classifierAfter_cases [of url x c] by (auto simp: addToCache_frame)

lemma classify_ok: "cacheOk c \<Longrightarrow> cacheOk (classifierAfter url x c)"
  using classifierAfter_cases [of url x c] by (auto intro: addToCache_ok)

lemma rule_change_ok:
  assumes "cacheOk c"
  shows "cacheOk (c\<lparr>customRules := (customRules c)(d0 := v),
                    cache := AList.delete d0 (cache c)\<rparr>)"
  unfolding cacheOk_def
proof (intro allI impI)
  let ?c = "c\<lparr>customRules := (customRules c)(d0 := v), cache := AList.delete d0 (cache c)\<rparr>"
  fix k r
  assume a: "map_of (cache ?c) k = Some r"
  then have k: "k \<noteq> d0" and "map_of (cache c) k = Some r"
    by (auto simp: delete_conv' split: if_splits)
  then have "resolve c k = Inr r" using assms by (simp add: cacheOk_def)
  moreover have "resolve ?c k = resolve c k"
    by (rule resolve_cong) (simp_all add: k)
  ultimately show "resolve ?c k = Inr r" by simp
qed

lemma addCustomRule_ok: "cacheOk c \<Longrightarrow> cacheOk (addCustomRule url x cat c)"
  by (auto simp: addCustomRule_def rule_change_ok split: option.splits)

lemma removeCustomRule_ok: "cacheOk c \<Longrightarrow> cacheOk (removeCustomRule url x c)"
  by (auto simp: removeCustomRule_def rule_change_ok split: option.splits)

lemma reachableC_cacheOk: "reachableC url c \<Longrightarrow> cacheOk c"
proof (induction rule: reachableC.induct)
  case (rc_new pats)
  show ?case by (simp add: cacheOk_def newClassifier_def)
next
  case (rc_classify c x)
  then show ?case by (simp add: classify_ok)
next
  case (rc_add c x cat)
  then show ?case by (simp add: addCustomRule_ok)
next
  case (rc_remove c x)
  then show ?case by (simp add: removeCustomRule_ok)
next
  case (rc_clear c)
  show ?case by (simp add: cacheOk_def classifierClearCache_def)
qed

lemma classify_resolve:
  assumes "cacheOk c" and "extractDomain url x = Some d" and "d \<noteq> []"
  shows "classified url x c = resolve c d"
proof (cases "map_of (cache c) d")
  case None
  then show ?thesis by (rule classify_uncached [OF assms(2,3)])
next
  case (Some r)
  then have "resolve c d = Inr r" using assms(1) by (simp add: cacheOk_def)
  with classify_cached [OF assms(2,3) Some] show ?thesis by simp
qed

subsection \<open>C8: custom rules and the cache\<close>

text \<open>
  C8: in every state a classifier can reach, an input whose normalised domain has both a
  custom rule and a static-table entry is classified with the custom rule's category
  and confidence 1.0. Adding or removing a custom rule for the domain deletes the
  domain's cache entry at once, and the next \<^verbatim>\<open>classify\<close> of the domain reflects
  the change: it gives the new rule's category with confidence 1.0, or after a removal
  exactly what the static classification of the domain gives, be that a result or the
  error it throws.
\<close>

theorem custom_rule_precedence:
  assumes "reachableC url c" and "extractDomain url x = Some d" and "d \<noteq> []"
  shows "(\<forall>cat cat'. customRules c d = Some cat \<and> domainCategoryMap c d = Some cat' \<longrightarrow>
            (\<exists>r. classified url x c = Inr r \<and> r_category r = cat \<and> r_confidence r = 1)) \<and>
         (\<forall>y cat. extractDomain url y = Some d \<longrightarrow>
            map_of (cache (addCustomRule url y cat c)) d = None \<and>
            (\<exists>r. classified url x (addCustomRule url y cat c) = Inr r \<and>
                 r_category r = cat \<and> r_confidence r = 1)) \<and>
         (\<forall>y. extractDomain url y = Some d \<longrightarrow>
            map_of (cache (removeCustomRule url y c)) d = None \<and>
            classified url x (removeCustomRule url y c) = staticResult c d)"
proof (intro conjI allI impI)
  note ok = reachableC_cacheOk [OF assms(1)]
  {
    fix cat cat'
    assume "customRules c d = Some cat \<and> domainCategoryMap c d = Some cat'"
    then have "classified url x c = Inr (createResult (cl_patterns c) cat 1)"
      using classify_resolve [OF ok assms(2,3)] by (simp add: resolve_def)
    then show "\<exists>r. classified url x c = Inr r \<and> r_category r = cat \<and> r_confidence r = 1"
      by (simp add: createResult_def)
  }
  {
    fix y cat
    assume y: "extractDomain url y = Some d"
    let ?c = "addCustomRule url y cat c"
    have c': "?c = c\<lparr>customRules := (customRules c)(d \<mapsto> cat),
                      cache := AList.delete d (cache c)\<rparr>"
      using y assms(3) by (simp add: addCustomRule_def)
    show "map_of (cache ?c) d = None"
      by (simp add: c' delete_conv')
    have "classified url x ?c = resolve ?c d"
      by (rule classify_resolve [OF addCustomRule_ok [OF ok] assms(2,3)])
    then have "classified url x ?c = Inr (createResult (cl_patterns c) cat 1)"
      by (simp add: c' resolve_def)
    then show "\<exists>r. classified url x ?c = Inr r \<and> r_category r = cat \<and> r_confidence r = 1"
      by (simp add: createResult_def)
  }
  {
    fix y
    assume y: "extractDomain url y = Some d"
    let ?c = "removeCustomRule url y c"
    have c': "?c = c\<lparr>customRules := (customRules c)(d := None),
                      cache := AList.delete d (cache c)\<rparr>"
      using y assms(3) by (simp add: removeCustomRule_def)
    show "map_of (cache ?c) d = None"
      by (simp add: c' delete_conv')
    have "classified url x ?c = resolve ?c d"
      by (rule classify_resolve [OF removeCustomRule_ok [OF ok] assms(2,3)])
    moreover have "resolve ?c d = staticResult ?c d"
      by (simp add: c' resolve_def)
    moreover have "staticResult ?c d = staticResult c d"
      by (rule staticResult_cong) (simp_all add: c')
    ultimately show "classified url x ?c = staticResult c d"
      by simp
  }
qed

lemma classifierCustom_fields:
  "customRules classifierCustom ''youtube.com'' = Some ''education''"
  "domainCategoryMap classifierCustom ''youtube.com'' = Some ''video''"
  by (simp_all add: classifierCustom_def addCustomRule_def extract_plain
      classifierAfter_frame youtube_table)

theorem custom_rule_precedence_witness:
  "reachableC noUrl classifierCustom \<and>
   extractDomain noUrl ''youtube.com'' = Some ''youtube.com'' \<and>
   customRules classifierCustom ''youtube.com'' = Some ''education'' \<and>
   domainCategoryMap classifierCustom ''youtube.com'' = Some ''video'' \<and>
   (\<exists>r. classified noUrl ''youtube.com'' classifierCustom = Inr r \<and>
        r_category r = ''education'' \<and> r_confidence r = 1)"
proof -
  have r: "reachableC noUrl classifierCustom"
    unfolding classifierCustom_def by (intro reachableC.intros)
  have n: "''youtube.com'' \<noteq> []" by simp
  from custom_rule_precedence [OF r extract_plain(3) n]
  have "\<exists>r. classified noUrl ''youtube.com'' classifierCustom = Inr r \<and>
        r_category r = ''education'' \<and> r_confidence r = 1"
    using classifierCustom_fields by blast
  then show ?thesis
    using r extract_plain(3) classifierCustom_fields by simp
qed

end
